theory Spec2Isabelle
  imports Main "HOL-Library.Word" "HOL-Library.Product_Lexorder"
begin

section \<open>Attribute collections\<close>

text \<open>
  The parser of \<^verbatim>\<open>editeng/source/rtf/svxrtf.cxx\<close> keeps formatting attributes in item
  sets that are keyed by a 16-bit which-id. An item set is embedded as an association
  list; the item stored under an id is the first pair with that id, so every operation
  below is written against \<open>map_of\<close>. Item payloads are compared only by equality in the
  source and are embedded as integers.
\<close>

type_synonym which = nat
type_synonym item = int
type_synonym item_set = "(which \<times> item) list"

text \<open>A text of the lexer, as its list of UTF-16 code units.\<close>

type_synonym OUString = "nat list"

text \<open>
  Modelled from the spec: the item-set class (SfxItemSet) is declared outside the source
  file. The spec calls it a sparse mapping from attribute id to value; \<open>GetItemState\<close>
  with \<open>bSrchInParent = false\<close> looks one id up, \<open>Count\<close> is the number of ids set,
  \<open>ClearItem\<close> removes one id, \<open>PutItem\<close> stores a value under its id, \<open>Put\<close> stores
  every item of another set, and \<open>Differentiate\<close> subtracts the ids of another set.
\<close>

definition GetItemState :: "item_set \<Rightarrow> which \<Rightarrow> item option" where
  "GetItemState s k = map_of s k"

definition Count :: "item_set \<Rightarrow> nat" where
  "Count s = length (remdups (map fst s))"

definition ClearItem :: "which \<Rightarrow> item_set \<Rightarrow> item_set" where
  "ClearItem k s = filter (\<lambda>p. fst p \<noteq> k) s"

definition PutItem :: "which \<Rightarrow> item \<Rightarrow> item_set \<Rightarrow> item_set" where
  "PutItem k v s = (if GetItemState s k \<noteq> None
                    then map (\<lambda>p. if fst p = k then (k, v) else p) s
                    else (k, v) # s)"

definition Put :: "item_set \<Rightarrow> item_set \<Rightarrow> item_set" where
  "Put src dst = foldr (\<lambda>p d. PutItem (fst p) (snd p) d) src dst"

definition Differentiate :: "item_set \<Rightarrow> item_set \<Rightarrow> item_set" where
  "Differentiate rSet s = filter (\<lambda>p. GetItemState rSet (fst p) = None) s"

section \<open>Scope records\<close>

text \<open>
  \<open>SvxRTFItemStackType\<close>: the attribute set, the start and end positions (paragraph
  index and character offset), the style number and the list of closed children. The
  source holds the children through a pointer that is null until \<open>Add\<close> pushes the first
  child and is reset to null by \<open>Compress\<close> as soon as the vector is empty, so a non-null
  empty vector never exists; the empty list stands for the null pointer.
\<close>

datatype stack_type = StackType
  (aAttrSet: item_set)
  (pSttNd: int) (nSttCnt: int)
  (pEndNd: int) (nEndCnt: int)
  (nStyleNo: nat)
  (m_pChildList: "stack_type list")

definition set_attrs :: "item_set \<Rightarrow> stack_type \<Rightarrow> stack_type" where
  "set_attrs a t = StackType a (pSttNd t) (nSttCnt t) (pEndNd t) (nEndCnt t) (nStyleNo t)
     (m_pChildList t)"

definition set_children :: "stack_type list \<Rightarrow> stack_type \<Rightarrow> stack_type" where
  "set_children cs t = StackType (aAttrSet t) (pSttNd t) (nSttCnt t) (pEndNd t) (nEndCnt t)
     (nStyleNo t) cs"

definition set_end :: "int \<Rightarrow> int \<Rightarrow> stack_type \<Rightarrow> stack_type" where
  "set_end n c t = StackType (aAttrSet t) (pSttNd t) (nSttCnt t) n c (nStyleNo t)
     (m_pChildList t)"

definition Add :: "stack_type \<Rightarrow> stack_type \<Rightarrow> stack_type" where
  "Add pIns t = set_children (m_pChildList t @ [pIns]) t"

text \<open>
  The collaborators the parser receives from its subclass and from the attribute pool.
  They are pure virtual or declared in other files, so the embedding takes them as
  parameters: cursor movement, the paragraph-end test, the end of the previous
  paragraph, text insertion, the pool defaults, the ids of the paragraph attributes
  (\<open>aPardMap\<close>, of which \<open>nScriptSpace\<close> is the id of the script-space item) and
  the flags set by the caller. Positions are a paragraph index and an offset; the
  source reads both through handles, which are embedded as the numbers they hold.
\<close>

record env =
  MovePos :: "bool \<Rightarrow> int \<times> int \<Rightarrow> int \<times> int"
  IsEndPara :: "int \<Rightarrow> int \<Rightarrow> bool"
  SetEndPrevPara :: "int \<times> int \<Rightarrow> int \<times> int"
  InsertText :: "OUString \<Rightarrow> int \<times> int \<Rightarrow> int \<times> int"
  GetDefaultItem :: "which \<Rightarrow> item"
  IsWhich :: "which \<Rightarrow> bool"
  aPardMap :: "which list"
  nScriptSpace :: which
  bNewDoc :: bool
  bChkStyleAttr :: bool

section \<open>The range compressor\<close>

text \<open>
  \<open>SvxRTFItemStackType::Compress\<close>. \<open>narrow\<close> is the inner loop that keeps in the merge
  set the items the child holds with an equal value. \<open>Compress_loop\<close> is the loop over the
  children from index 1: it compresses the child, tests that it continues the previous
  range, and narrows the merge set; it yields the children as the loop left them and,
  when the loop ran to its end, the merge set and the last end position.
  \<open>Compress_rest\<close> is the loop that runs after a gap was found.
\<close>

definition narrow :: "item_set \<Rightarrow> item_set \<Rightarrow> item_set" where
  "narrow child mrg = filter (\<lambda>p. GetItemState child (fst p) = GetItemState mrg (fst p)) mrg"

definition gap :: "env \<Rightarrow> int \<Rightarrow> int \<Rightarrow> stack_type \<Rightarrow> bool" where
  "gap e pLastNd nLastCnt pTmp =
     (if nSttCnt pTmp = 0
      then pLastNd + 1 \<noteq> pSttNd pTmp \<or> \<not> IsEndPara e pLastNd nLastCnt
      else nSttCnt pTmp \<noteq> nLastCnt \<or> pLastNd \<noteq> pSttNd pTmp)"

definition droppable :: "stack_type \<Rightarrow> bool" where
  "droppable t = (m_pChildList t = [] \<and> Count (aAttrSet t) = 0 \<and> nStyleNo t = 0)"

definition subtract :: "item_set \<Rightarrow> stack_type list \<Rightarrow> stack_type list" where
  "subtract mrg cs =
     filter (\<lambda>c. \<not> droppable c) (map (\<lambda>c. set_attrs (Differentiate mrg (aAttrSet c)) c) cs)"

fun Compress :: "env \<Rightarrow> stack_type \<Rightarrow> stack_type"
  and Compress_loop :: "env \<Rightarrow> int \<Rightarrow> int \<Rightarrow> item_set \<Rightarrow> stack_type list
        \<Rightarrow> stack_type list \<times> (item_set \<times> int \<times> int) option"
  and Compress_rest :: "env \<Rightarrow> stack_type list \<Rightarrow> stack_type list"
where
  "Compress e (StackType a sn sc en ec st []) = StackType a sn sc en ec st []"
| "Compress e (StackType a sn sc en ec st (c0 # cs)) =
     (if Count (aAttrSet c0) = 0 \<or> sn \<noteq> pSttNd c0 \<or> sc \<noteq> nSttCnt c0
      then StackType a sn sc en ec st (c0 # cs)
      else case Compress_loop e (pEndNd c0) (nEndCnt c0) (aAttrSet c0) cs of
        (cs', None) \<Rightarrow> StackType a sn sc en ec st (c0 # cs')
      | (cs', Some (aMrgSet, pLastNd, nLastCnt)) \<Rightarrow>
          if en \<noteq> pLastNd \<or> ec \<noteq> nLastCnt
          then StackType a sn sc en ec st (c0 # cs')
          else StackType (Put aMrgSet a) sn sc en ec st (subtract aMrgSet (c0 # cs')))"
| "Compress_loop e pLastNd nLastCnt aMrgSet [] = ([], Some (aMrgSet, pLastNd, nLastCnt))"
| "Compress_loop e pLastNd nLastCnt aMrgSet (c # cs) =
     (let pTmp = (if m_pChildList c \<noteq> [] then Compress e c else c) in
      if gap e pLastNd nLastCnt pTmp then (pTmp # Compress_rest e cs, None)
      else let aMrgSet' = narrow (aAttrSet pTmp) aMrgSet in
        if Count aMrgSet' = 0 then (pTmp # cs, None)
        else case Compress_loop e (pEndNd pTmp) (nEndCnt pTmp) aMrgSet' cs of
          (cs', r) \<Rightarrow> (pTmp # cs', r))"
| "Compress_rest e [] = []"
| "Compress_rest e (c # cs) =
     (if m_pChildList c \<noteq> [] then Compress e c else c) # Compress_rest e cs"

section \<open>Tokens\<close>

text \<open>
  The token kinds the embedded readers tell apart, each with the numeric value the
  lexer attaches to it (\<open>nTokenValue\<close>) or its text (\<open>aToken\<close>). Every other control
  word is \<open>RTF_OTHER\<close>. The lexer is an external collaborator; a reader is given the
  tokens still to come as a list, the parser counts as working while the list lasts, and
  \<open>SkipToken()\<close> puts the last token back at the front. The semicolon is the
  code unit 59.
\<close>

datatype token =
    BraceOpen | BraceClose | Semicolon
  | RTF_TEXTTOKEN OUString
  | RTF_RED int | RTF_GREEN int | RTF_BLUE int
  | RTF_F int | RTF_FALT | RTF_FCHARSET int | RTF_FPRQ int
  | RTF_FNIL | RTF_FROMAN | RTF_FSWISS | RTF_FMODERN | RTF_FSCRIPT | RTF_FDECOR | RTF_FTECH
  | RTF_IGNOREFLAG | RTF_UNKNOWNCONTROL | RTF_PANOSE | RTF_FNAME | RTF_FONTEMB | RTF_FONTFILE
  | RTF_LINE | RTF_TAB | RTF_SUBENTRYINDEX | RTF_EMDASH | RTF_ENDASH | RTF_BULLET
  | RTF_LQUOTE | RTF_RQUOTE | RTF_LDBLQUOTE | RTF_RDBLQUOTE
  | RTF_OTHER

section \<open>The color table\<close>

text \<open>
  Modelled from the spec: the color class and the constant \<open>COL_AUTO\<close> are declared
  outside the source file; the spec calls the latter a symbolic automatic color that is
  not RGB white, so it is a constructor of its own beside the RGB triples.
\<close>

datatype color = Color "8 word" "8 word" "8 word" | COL_AUTO

record color_reader =
  aColorTbl :: "color list"
  nRed :: "8 word"
  nGreen :: "8 word"
  nBlue :: "8 word"

text \<open>
  The body of the \<open>case ';'\<close> branch of \<open>SvxRTFParser::ReadColorTable\<close>: the color is
  built from the accumulators, replaced by \<open>COL_AUTO\<close> when the table is empty and all
  three read \<open>sal_uInt8(-1)\<close>, pushed, and the accumulators are set to 0.
\<close>

definition color_commit :: "color_reader \<Rightarrow> color_reader" where
  "color_commit st =
     (let pColor = (if aColorTbl st = [] \<and> nRed st = 255 \<and> nGreen st = 255 \<and> nBlue st = 255
                    then COL_AUTO else Color (nRed st) (nGreen st) (nBlue st))
      in \<lparr>aColorTbl = aColorTbl st @ [pColor], nRed = 0, nGreen = 0, nBlue = 0\<rparr>)"

text \<open>The \<open>switch\<close> of the loop body; \<open>sal_uInt8(nTokenValue)\<close> keeps the low 8 bits.\<close>

fun color_token :: "color_reader \<Rightarrow> token \<Rightarrow> color_reader" where
  "color_token st (RTF_RED v) = st\<lparr>nRed := word_of_int v\<rparr>"
| "color_token st (RTF_GREEN v) = st\<lparr>nGreen := word_of_int v\<rparr>"
| "color_token st (RTF_BLUE v) = st\<lparr>nBlue := word_of_int v\<rparr>"
| "color_token st (RTF_TEXTTOKEN aToken) =
     (if (if length aToken = 1 then hd aToken \<noteq> 59 else 59 \<notin> set aToken)
      then st else color_commit st)"
| "color_token st Semicolon = color_commit st"
| "color_token st _ = st"

text \<open>
  The \<open>while\<close> loop: it ends at the closing brace, which the final \<open>SkipToken()\<close> leaves
  to the caller, or when the tokens run out.
\<close>

fun color_loop :: "color_reader \<Rightarrow> token list \<Rightarrow> color_reader \<times> token list" where
  "color_loop st [] = (st, [])"
| "color_loop st (t # ts) =
     (if t = BraceClose then (st, t # ts) else color_loop (color_token st t) ts)"

definition ReadColorTable :: "color list \<Rightarrow> token list \<Rightarrow> color list \<times> token list" where
  "ReadColorTable tbl ts =
     (case color_loop \<lparr>aColorTbl = tbl, nRed = 255, nGreen = 255, nBlue = 255\<rparr> ts of
        (st, ts') \<Rightarrow> (aColorTbl st, ts'))"

text \<open>A token that finishes a color, and a token that leaves the reader as it is.\<close>

definition commits :: "token \<Rightarrow> bool" where
  "commits t = (case t of
       Semicolon \<Rightarrow> True
     | RTF_TEXTTOKEN aToken \<Rightarrow>
         \<not> (if length aToken = 1 then hd aToken \<noteq> 59 else 59 \<notin> set aToken)
     | _ \<Rightarrow> False)"

definition channel :: "token \<Rightarrow> bool" where
  "channel t = (case t of RTF_RED v \<Rightarrow> True | RTF_GREEN v \<Rightarrow> True | RTF_BLUE v \<Rightarrow> True
     | _ \<Rightarrow> False)"

section \<open>The font table\<close>

text \<open>
  Modelled from the spec: the font class and the type of \<open>m_FontTable\<close> are declared
  outside the source file. The spec gives a font record a family name, a family class
  (roman, swiss, modern, script, decorative or unknown), a pitch (fixed, variable or
  unspecified) and a character encoding, and calls the table an id-keyed lookup table.
  The table is a map from the 16-bit font number; \<open>insert\<close> is the insertion of a
  key-value pair into a container with unique keys, which leaves the container as it is
  when the key is present.
\<close>

datatype font_family =
  FAMILY_DONTKNOW | FAMILY_ROMAN | FAMILY_SWISS | FAMILY_MODERN | FAMILY_SCRIPT | FAMILY_DECORATIVE

datatype font_pitch = PITCH_DONTKNOW | PITCH_FIXED | PITCH_VARIABLE

record font =
  FamilyName :: OUString
  Family :: font_family
  Pitch :: font_pitch
  CharSet :: int

type_synonym font_table = "16 word \<Rightarrow> font option"

definition insert_font :: "16 word \<Rightarrow> font \<Rightarrow> font_table \<Rightarrow> font_table" where
  "insert_font k f tbl = (if tbl k = None then tbl(k \<mapsto> f) else tbl)"

text \<open>
  The encodings the reader takes from outside: the default encoding of the locale, the
  encoding of a Windows character set, and the symbol encoding.
\<close>

record font_env =
  nSystemChar :: int
  FromWindowsCharset :: "8 word \<Rightarrow> int"
  RTL_TEXTENCODING_SYMBOL :: int

definition new_font :: "font_env \<Rightarrow> font" where
  "new_font fe = \<lparr>FamilyName = [], Family = FAMILY_DONTKNOW, Pitch = PITCH_DONTKNOW,
     CharSet = nSystemChar fe\<rparr>"

text \<open>
  \<open>SvxRTFParser::DelCharAtEnd\<close>: blanks (code unit 32) are stripped at the start and
  at the end, then one final \<open>cDel\<close> is removed.
\<close>

definition DelCharAtEnd :: "OUString \<Rightarrow> nat \<Rightarrow> OUString" where
  "DelCharAtEnd rStr cDel =
     (let s1 = (if rStr \<noteq> [] \<and> hd rStr = 32 then dropWhile (\<lambda>c. c = 32) rStr else rStr);
          s2 = (if s1 \<noteq> [] \<and> last s1 = 32 then rev (dropWhile (\<lambda>c. c = 32) (rev s1)) else s1)
      in if s2 \<noteq> [] \<and> last s2 = cDel then butlast s2 else s2)"

text \<open>
  Modelled from the spec: \<open>ReadUnknownData\<close> belongs to the lexer. The spec has an
  unrecognised group skipped up to its closing brace; \<open>skip_group n\<close> drops tokens up
  to the brace that closes the group entered \<open>n\<close> levels above and leaves that brace.
\<close>

fun skip_group :: "nat \<Rightarrow> token list \<Rightarrow> token list" where
  "skip_group n [] = []"
| "skip_group n (BraceOpen # ts) = skip_group (Suc n) ts"
| "skip_group 0 (BraceClose # ts) = BraceClose # ts"
| "skip_group (Suc n) (BraceClose # ts) = skip_group n ts"
| "skip_group n (t # ts) = skip_group n ts"

record font_reader =
  nOpenBrakets :: int
  pFont :: font
  nFontNo :: "16 word"
  nInsFontNo :: "16 word"
  sAltNm :: OUString
  sFntNm :: OUString
  bIsAltFntNm :: bool
  m_FontTable :: font_table
  eState_Error :: bool

text \<open>
  The case \<open>{\<close> of \<open>SvxRTFParser::ReadFontTable\<close>, which reads ahead: a group that does
  not start with the ignore flag, or whose control word is none of the skipped ones, is
  entered and the tokens read ahead are put back; else the group is skipped, and a token
  other than the closing brace after it is an error.
\<close>

definition skipped_word :: "token \<Rightarrow> bool" where
  "skipped_word t = (t = RTF_UNKNOWNCONTROL \<or> t = RTF_PANOSE \<or> t = RTF_FNAME \<or>
     t = RTF_FONTEMB \<or> t = RTF_FONTFILE)"

definition font_open :: "font_reader \<Rightarrow> token list \<Rightarrow> font_reader \<times> token list" where
  "font_open st ts =
     (case ts of
        RTF_IGNOREFLAG # t2 # rest \<Rightarrow>
          if \<not> skipped_word t2 then (st\<lparr>nOpenBrakets := nOpenBrakets st + 1\<rparr>, ts)
          else (case skip_group 0 rest of
                  BraceClose # rest' \<Rightarrow> (st, rest')
                | [] \<Rightarrow> (st\<lparr>eState_Error := True\<rparr>, [])
                | t # rest' \<Rightarrow> (st\<lparr>eState_Error := True\<rparr>, rest'))
      | _ \<Rightarrow> (st\<lparr>nOpenBrakets := nOpenBrakets st + 1\<rparr>, ts))"

text \<open>
  The \<open>switch\<close> of the loop body. The result tells whether \<open>bCheckNewFont\<close> was set.
  \<open>SetEncoding\<close> acts on the lexer only and is left out.
\<close>

fun font_token :: "font_env \<Rightarrow> font_reader \<Rightarrow> token \<Rightarrow> token list
    \<Rightarrow> (font_reader \<times> bool) \<times> token list" where
  "font_token fe st BraceClose ts =
     ((st\<lparr>bIsAltFntNm := False, nOpenBrakets := nOpenBrakets st - 1, nInsFontNo := nFontNo st\<rparr>,
       True), ts)"
| "font_token fe st BraceOpen ts = ((fst (font_open st ts), False), snd (font_open st ts))"
| "font_token fe st RTF_FROMAN ts = ((st\<lparr>pFont := (pFont st)\<lparr>Family := FAMILY_ROMAN\<rparr>\<rparr>, False), ts)"
| "font_token fe st RTF_FSWISS ts = ((st\<lparr>pFont := (pFont st)\<lparr>Family := FAMILY_SWISS\<rparr>\<rparr>, False), ts)"
| "font_token fe st RTF_FMODERN ts = ((st\<lparr>pFont := (pFont st)\<lparr>Family := FAMILY_MODERN\<rparr>\<rparr>, False), ts)"
| "font_token fe st RTF_FSCRIPT ts = ((st\<lparr>pFont := (pFont st)\<lparr>Family := FAMILY_SCRIPT\<rparr>\<rparr>, False), ts)"
| "font_token fe st RTF_FDECOR ts =
     ((st\<lparr>pFont := (pFont st)\<lparr>Family := FAMILY_DECORATIVE\<rparr>\<rparr>, False), ts)"
| "font_token fe st RTF_FTECH ts =
     ((st\<lparr>pFont := (pFont st)\<lparr>CharSet := RTL_TEXTENCODING_SYMBOL fe, Family := FAMILY_DONTKNOW\<rparr>\<rparr>,
       False), ts)"
| "font_token fe st RTF_FNIL ts = ((st\<lparr>pFont := (pFont st)\<lparr>Family := FAMILY_DONTKNOW\<rparr>\<rparr>, False), ts)"
| "font_token fe st (RTF_FCHARSET v) ts =
     ((if v \<noteq> - 1
       then st\<lparr>pFont := (pFont st)\<lparr>CharSet := FromWindowsCharset fe (word_of_int v)\<rparr>\<rparr>
       else st, False), ts)"
| "font_token fe st (RTF_FPRQ v) ts =
     ((if v = 1 then st\<lparr>pFont := (pFont st)\<lparr>Pitch := PITCH_FIXED\<rparr>\<rparr>
       else if v = 2 then st\<lparr>pFont := (pFont st)\<lparr>Pitch := PITCH_VARIABLE\<rparr>\<rparr>
       else st, False), ts)"
| "font_token fe st (RTF_F v) ts =
     ((st\<lparr>nInsFontNo := nFontNo st, nFontNo := word_of_int v\<rparr>, True), ts)"
| "font_token fe st RTF_FALT ts = ((st\<lparr>bIsAltFntNm := True\<rparr>, False), ts)"
| "font_token fe st (RTF_TEXTTOKEN aToken) ts =
     ((let aToken' = DelCharAtEnd aToken 59
       in if aToken' \<noteq> []
          then (if bIsAltFntNm st then st\<lparr>sAltNm := aToken'\<rparr> else st\<lparr>sFntNm := aToken'\<rparr>)
          else st, False), ts)"
| "font_token fe st _ ts = ((st, False), ts)"

text \<open>
  The test after the \<open>switch\<close>: a font with a name is put into the table under
  \<open>nInsFontNo\<close> once the group is closed, and a new font is begun.
\<close>

definition font_ready :: "font_env \<Rightarrow> font_reader \<Rightarrow> font_reader" where
  "font_ready fe st =
     (let name = (if sAltNm st \<noteq> [] then sFntNm st @ [59] @ sAltNm st else sFntNm st)
      in st\<lparr>m_FontTable := insert_font (nInsFontNo st) ((pFont st)\<lparr>FamilyName := name\<rparr>)
                              (m_FontTable st),
            pFont := new_font fe, sAltNm := [], sFntNm := []\<rparr>)"

definition font_step :: "font_env \<Rightarrow> font_reader \<Rightarrow> token \<Rightarrow> token list
    \<Rightarrow> font_reader \<times> token list" where
  "font_step fe st t ts =
     (let r = font_token fe st t ts; st1 = fst (fst r); bCheckNewFont = snd (fst r)
      in (if bCheckNewFont \<and> 1 \<ge> nOpenBrakets st1 \<and> sFntNm st1 \<noteq> []
          then font_ready fe st1 else st1, snd r))"

lemma length_skip_group: "length (skip_group n ts) \<le> length ts"
  by (induction n ts rule: skip_group.induct) auto

lemma length_font_open: "length (snd (font_open st ts)) \<le> length ts"
proof -
  have "length rest' \<le> length rest" if "skip_group 0 rest = t # rest'" for rest t rest'
    using length_skip_group [of 0 rest] that by simp
  then show ?thesis
    by (fastforce simp: font_open_def split: list.splits token.splits)
qed

lemma length_font_token: "length (snd (font_token fe st t ts)) \<le> length ts"
  by (cases "(fe, st, t, ts)" rule: font_token.cases) (simp_all add: length_font_open)

lemma length_font_step: "length (snd (font_step fe st t ts)) \<le> length ts"
  by (simp add: font_step_def Let_def length_font_token)

text \<open>
  The \<open>while\<close> loop of \<open>ReadFontTable\<close>: it runs while a group is open and the parser
  works, that is, no error was set and tokens are left.
\<close>

function font_loop :: "font_env \<Rightarrow> font_reader \<Rightarrow> token list \<Rightarrow> font_reader" where
  "font_loop fe st [] = st"
| "font_loop fe st (t # ts) =
     (if nOpenBrakets st = 0 \<or> eState_Error st then st
      else font_loop fe (fst (font_step fe st t ts)) (snd (font_step fe st t ts)))"
  by pat_completeness auto
termination
proof (relation "measure (\<lambda>(fe, st, ts). length ts)", goal_cases)
  case 1 show ?case by simp
next
  case (2 fe st t ts)
  show ?case using length_font_step [of fe st t ts] by (simp add: case_prod_beta)
qed

definition ReadFontTable :: "font_env \<Rightarrow> font_table \<Rightarrow> token list \<Rightarrow> font_table" where
  "ReadFontTable fe tbl ts =
     m_FontTable (font_loop fe
       \<lparr>nOpenBrakets = 1, pFont = new_font fe, nFontNo = 0, nInsFontNo = 0, sAltNm = [],
        sFntNm = [], bIsAltFntNm = False, m_FontTable = tbl, eState_Error = False\<rparr> ts)"

text \<open>\<open>SvxRTFParser::GetFont\<close>, as far as the table answers: the font found under an id.\<close>

definition GetFont :: "font_table \<Rightarrow> 16 word \<Rightarrow> font option" where
  "GetFont tbl nId = tbl nId"

section \<open>The attribute scope stack\<close>

text \<open>
  The part of the parser object the scope operations work on. \<open>aAttrStack\<close> is the
  stack of open scopes with its top (\<open>aAttrStack.back()\<close>) at the head of the list;
  \<open>m_AttrSetList\<close> is the list of records closed with no scope left open, in the order
  of the vector; \<open>pInsPos\<close> is the cursor (paragraph index, character offset);
  \<open>m_StyleTable\<close> gives the attribute set of each style read so far. \<open>applied\<close> logs
  the calls made to the document: every \<open>InsertText\<close> and every \<open>SetAttrInDoc\<close>.
\<close>

datatype event = Inserted OUString | SetAttrInDoc stack_type

record parser =
  aAttrStack :: "stack_type list"
  m_AttrSetList :: "stack_type list"
  pInsPos :: "int \<times> int"
  bNewGroup :: bool
  m_StyleTable :: "nat \<Rightarrow> item_set option"
  applied :: "event list"

text \<open>
  \<open>GetRTFDefaults\<close>: the set holds the script-space item (value false, embedded as 0)
  when the pool has an id for it and the parser does not read a new document.
\<close>

definition GetRTFDefaults :: "env \<Rightarrow> item_set" where
  "GetRTFDefaults e = (if nScriptSpace e \<noteq> 0 \<and> \<not> bNewDoc e then [(nScriptSpace e, 0)] else [])"

text \<open>\<open>SvxRTFItemStackType::SetRTFDefaults\<close>: each default not yet set is put.\<close>

definition SetRTFDefaults :: "item_set \<Rightarrow> item_set \<Rightarrow> item_set" where
  "SetRTFDefaults rDefaults a =
     foldl (\<lambda>s p. if GetItemState s (fst p) = None then PutItem (fst p) (snd p) s else s)
       a rDefaults"

text \<open>
  The two constructors of \<open>SvxRTFItemStackType\<close>: a fresh record at a position, and a
  copy of a record at a position that takes the style number and, with \<open>bCopyAttr\<close>,
  the attributes.
\<close>

definition new_stack_type :: "int \<times> int \<Rightarrow> stack_type" where
  "new_stack_type rPos = StackType [] (fst rPos) (snd rPos) (fst rPos) (snd rPos) 0 []"

definition copy_stack_type :: "stack_type \<Rightarrow> int \<times> int \<Rightarrow> bool \<Rightarrow> stack_type" where
  "copy_stack_type rCpy rPos bCopyAttr =
     StackType (if bCopyAttr then Put (aAttrSet rCpy) [] else [])
       (fst rPos) (snd rPos) (fst rPos) (snd rPos) (nStyleNo rCpy) []"

text \<open>\<open>SvxRTFParser::GetAttrSet_\<close> (here \<open>GetAttrSet_x\<close>, as a name cannot end in an underscore): a new scope is pushed at the cursor.\<close>

definition GetAttrSet_x :: "env \<Rightarrow> parser \<Rightarrow> parser" where
  "GetAttrSet_x e s =
     (let pNew = (case aAttrStack s of
                    pCurrent # _ \<Rightarrow> copy_stack_type pCurrent (pInsPos s) False
                  | [] \<Rightarrow> new_stack_type (pInsPos s));
          pNew' = set_attrs (SetRTFDefaults (GetRTFDefaults e) (aAttrSet pNew)) pNew
      in s\<lparr>aAttrStack := pNew' # aAttrStack s, bNewGroup := False\<rparr>)"

text \<open>
  \<open>SvxRTFParser::ClearStyleAttr_\<close> (here \<open>ClearStyleAttr_x\<close>). Without style checking, with an empty set or with
  an unknown style, every item equal to the pool default is cleared; otherwise every
  item equal to the item of the style, and for the ids the style does not set every
  item equal to the pool default.
\<close>

definition ClearStyleAttr_x :: "env \<Rightarrow> (nat \<Rightarrow> item_set option) \<Rightarrow> stack_type \<Rightarrow> stack_type" where
  "ClearStyleAttr_x e tbl rStkType =
     (let rSet = aAttrSet rStkType;
          dflt = (\<lambda>nWhich. IsWhich e nWhich \<and>
                    GetItemState rSet nWhich = Some (GetDefaultItem e nWhich))
      in if \<not> bChkStyleAttr e \<or> Count rSet = 0 \<or> tbl (nStyleNo rStkType) = None
         then set_attrs (filter (\<lambda>p. \<not> dflt (fst p)) rSet) rStkType
         else case tbl (nStyleNo rStkType) of
           None \<Rightarrow> rStkType
         | Some rStyleSet \<Rightarrow>
             set_attrs (filter (\<lambda>p. \<not> (case GetItemState rStyleSet (fst p) of
                                          Some pSItem \<Rightarrow> GetItemState rSet (fst p) = Some pSItem
                                        | None \<Rightarrow> dflt (fst p))) rSet) rStkType)"

subsection \<open>Closing a scope\<close>

text \<open>
  The pieces of \<open>SvxRTFParser::AttrGroupEnd\<close>, in the order of the source.
  \<open>no_area\<close> is the first test of the check loop: a record without children that has
  neither attributes nor style, or that starts at the cursor, is dropped.
\<close>

definition no_area :: "int \<times> int \<Rightarrow> stack_type \<Rightarrow> bool" where
  "no_area pos pOld =
     (m_pChildList pOld = [] \<and>
      ((Count (aAttrSet pOld) = 0 \<and> nStyleNo pOld = 0) \<or>
       (pSttNd pOld = fst pos \<and> nSttCnt pOld = snd pos)))"

text \<open>
  The loop over the items of \<open>pOld\<close>: an item the parent has set with an equal value is
  cleared. It runs when there is a parent and \<open>pOld\<close> has items.
\<close>

definition diff_items :: "item_set \<Rightarrow> item_set \<Rightarrow> item_set" where
  "diff_items cur old = filter (\<lambda>p. GetItemState cur (fst p) \<noteq> GetItemState old (fst p)) old"

definition parent_diff :: "stack_type option \<Rightarrow> stack_type \<Rightarrow> stack_type" where
  "parent_diff pCurrent pOld =
     (case pCurrent of
        Some cur \<Rightarrow> if Count (aAttrSet pOld) \<noteq> 0
                    then set_attrs (diff_items (aAttrSet cur) (aAttrSet pOld)) pOld else pOld
      | None \<Rightarrow> pOld)"

text \<open>
  The cursor is moved back when it stands at the start of a paragraph; \<open>bCrsrBack\<close>
  tells whether that changed the paragraph.
\<close>

definition cursor_back :: "env \<Rightarrow> int \<times> int \<Rightarrow> bool \<times> (int \<times> int)" where
  "cursor_back e pos =
     (if snd pos = 0
      then let pos' = MovePos e False pos in (fst pos \<noteq> fst pos', pos')
      else (False, pos))"

definition starts_before :: "stack_type \<Rightarrow> int \<times> int \<Rightarrow> bool" where
  "starts_before pOld pos =
     (pSttNd pOld < fst pos \<or> (pSttNd pOld = fst pos \<and> nSttCnt pOld \<le> snd pos))"

text \<open>
  The loop that deletes the paragraph attributes from the copy; it stops when the set
  is empty and skips the ids that are 0.
\<close>

fun clear_pard :: "which list \<Rightarrow> item_set \<Rightarrow> item_set" where
  "clear_pard [] s = s"
| "clear_pard (n # ns) s =
     (if Count s = 0 then s else clear_pard ns (if n \<noteq> 0 then ClearItem n s else s))"

text \<open>
  The split at the paragraph boundary. \<open>pNew\<close> copies \<open>pOld\<close> at the cursor and loses the
  paragraph attributes; when that changed the number of items, \<open>pOld\<close> ends at the end of
  the previous paragraph and \<open>pNew\<close> starts at offset 0 with style 0, and both are
  checked against the style when style checking is on. \<open>None\<close> when the counts agree.
\<close>

definition split_para ::
  "env \<Rightarrow> (nat \<Rightarrow> item_set option) \<Rightarrow> int \<times> int \<Rightarrow> stack_type \<Rightarrow> (stack_type \<times> stack_type) option" where
  "split_para e tbl pos pOld =
     (let pNew = copy_stack_type pOld pos True;
          a = SetRTFDefaults (GetRTFDefaults e) (clear_pard (aPardMap e) (aAttrSet pNew))
      in if Count a = Count (aAttrSet pOld) then None
         else
           let pNew' = StackType a (pSttNd pNew) 0 (pEndNd pNew) (nEndCnt pNew) 0 [];
               pOld' = set_end (fst (SetEndPrevPara e pos)) (snd (SetEndPrevPara e pos)) pOld
           in if bChkStyleAttr e
              then Some (ClearStyleAttr_x e tbl pOld', ClearStyleAttr_x e tbl pNew')
              else Some (pOld', pNew'))"

text \<open>
  What the check loop of \<open>AttrGroupEnd\<close> decides for the popped record: it is dropped
  (the loop is left before anything is handed over; the cursor is the one given), it is
  split into two records at the paragraph boundary, or it is kept as one record that
  ends at the cursor. \<open>Single\<close> also carries \<open>bCrsrBack\<close> and the moved-back cursor.
\<close>

datatype resolution =
    Dropped "int \<times> int"
  | Split stack_type stack_type "int \<times> int"
  | Single stack_type bool "int \<times> int"

text \<open>
  The check loop up to the point where the record is handed over: the record is
  dropped when it has no area, or when the comparison with the parent leaves neither
  items nor children nor style; the cursor is moved back; a record that starts after
  the cursor is dropped (and a cursor that was moved back is moved forward again); with
  the cursor not moved back and the record started in another paragraph the split is
  tried; else the record ends at the cursor and is checked against the style only when
  it has no parent.
\<close>

definition resolve :: "env \<Rightarrow> parser \<Rightarrow> stack_type \<Rightarrow> stack_type option \<Rightarrow> resolution" where
  "resolve e s pOld0 pCurrent =
     (if no_area (pInsPos s) pOld0 then Dropped (pInsPos s)
      else
        let pOld = parent_diff pCurrent pOld0
        in if pCurrent \<noteq> None \<and> Count (aAttrSet pOld0) \<noteq> 0 \<and> Count (aAttrSet pOld) = 0 \<and>
              m_pChildList pOld = [] \<and> nStyleNo pOld = 0
           then Dropped (pInsPos s)
           else
             let bCrsrBack = fst (cursor_back e (pInsPos s));
                 pos = snd (cursor_back e (pInsPos s))
             in if \<not> starts_before pOld pos
                then Dropped (if bCrsrBack then MovePos e True pos else pos)
                else
                  (case (if \<not> bCrsrBack \<and> pSttNd pOld \<noteq> fst pos
                         then split_para e (m_StyleTable s) pos pOld else None) of
                     Some (pOld', pNew) \<Rightarrow> Split pOld' pNew pos
                   | None \<Rightarrow>
                       let pOld1 = set_end (fst pos) (snd pos) pOld
                       in Single (if bChkStyleAttr e \<and> pCurrent = None
                                  then ClearStyleAttr_x e (m_StyleTable s) pOld1 else pOld1)
                            bCrsrBack pos))"

text \<open>
  \<open>SvxRTFParser::AttrGroupEnd\<close>. With an empty stack nothing happens. Otherwise the
  top record is popped, \<open>pCurrent\<close> is the new top if there is one, and the check loop
  runs once. The records it keeps go to the parent, or to \<open>m_AttrSetList\<close> when the
  stack is empty. When a single record was added, the cursor was moved back and the
  parent then holds more than 50 children, the cursor is moved forward, a copy \<open>pNew\<close>
  of the parent is made at the cursor, the parent is closed by the recursive call and
  \<open>pNew\<close> is pushed. A cursor that is still moved back is moved forward at the end,
  and \<open>bNewGroup\<close> is cleared.
\<close>

function AttrGroupEnd :: "env \<Rightarrow> parser \<Rightarrow> parser" where
  "AttrGroupEnd e s =
     (case aAttrStack s of
        [] \<Rightarrow> s
      | pOld0 # stk \<Rightarrow>
          (let pCurrent = (case stk of [] \<Rightarrow> None | c # cs \<Rightarrow> Some c);
               s1 = s\<lparr>aAttrStack := stk, bNewGroup := False\<rparr>
           in (case resolve e s pOld0 pCurrent of
                 Dropped p \<Rightarrow> s1\<lparr>pInsPos := p\<rparr>
               | Split pOld pNew pos \<Rightarrow>
                   (case stk of
                      cur # rest \<Rightarrow>
                        s1\<lparr>aAttrStack := Add pNew (Add pOld cur) # rest, pInsPos := pos\<rparr>
                    | [] \<Rightarrow>
                        s1\<lparr>m_AttrSetList := m_AttrSetList s @ [pOld, pNew], pInsPos := pos\<rparr>)
               | Single pOld bCrsrBack pos \<Rightarrow>
                   (let fwd = (if bCrsrBack then MovePos e True pos else pos)
                    in (case stk of
                          [] \<Rightarrow> s1\<lparr>m_AttrSetList := m_AttrSetList s @ [pOld], pInsPos := fwd\<rparr>
                        | cur # rest \<Rightarrow>
                            (let cur' = Add pOld cur
                             in if bCrsrBack \<and> 50 < length (m_pChildList cur')
                                then
                                  (let pos2 = MovePos e True pos;
                                       cpy = copy_stack_type cur' pos2 True;
                                       pNew = set_attrs
                                         (SetRTFDefaults (GetRTFDefaults e) (aAttrSet cpy)) cpy;
                                       s2 = AttrGroupEnd e
                                              (s\<lparr>aAttrStack := cur' # rest, pInsPos := pos2\<rparr>)
                                   in s2\<lparr>aAttrStack := pNew # aAttrStack s2, bNewGroup := False\<rparr>)
                                else s1\<lparr>aAttrStack := cur' # rest, pInsPos := fwd\<rparr>))))))"
  by pat_completeness auto
termination
  by (relation "measure (\<lambda>(e, s). length (aAttrStack s))") auto

declare AttrGroupEnd.simps [simp del]


subsection \<open>Applying closed records\<close>

text \<open>
  \<open>SvxRTFParser::SetAttrSet\<close> yields the calls of \<open>SetAttrInDoc\<close> it makes, in order:
  a record with children is compressed, the record is applied when it has items or a
  style, then its children are processed from the first to the last. The call of
  \<open>SetDefault\<close> for the default tab touches the pool only and is left out.
\<close>

lemma size_set_attrs: "size (set_attrs a t) = size t"
  by (cases t) (simp add: set_attrs_def)

lemma size_subtract: "size_list size (subtract m cs) \<le> size_list size cs"
  by (induction cs) (auto simp: subtract_def size_set_attrs)

lemma size_Compress:
  "size (Compress e t) \<le> size t"
  "size_list size (fst (Compress_loop e n c m cs)) \<le> size_list size cs"
  "size_list size (Compress_rest e cs) \<le> size_list size cs"
proof (induction e t and e n c m cs and e cs rule: Compress_Compress_loop_Compress_rest.induct)
  case (2 e a sn sc en ec st c0 cs)
  show ?case
  proof (cases "Count (aAttrSet c0) = 0 \<or> sn \<noteq> pSttNd c0 \<or> sc \<noteq> nSttCnt c0")
    case True then show ?thesis by simp
  next
    case False
    obtain cs' r where L: "Compress_loop e (pEndNd c0) (nEndCnt c0) (aAttrSet c0) cs = (cs', r)"
      by (cases "Compress_loop e (pEndNd c0) (nEndCnt c0) (aAttrSet c0) cs")
    from "2.IH" False L have le: "size_list size cs' \<le> size_list size cs" by simp
    have sub: "size_list size (subtract m (c0 # cs')) \<le> size c0 + size_list size cs + 1" for m
      using size_subtract [of m "c0 # cs'"] le by simp
    show ?thesis
    proof (cases r)
      case None with False L le show ?thesis by simp
    next
      case (Some x)
      obtain m ln lc where x: "x = (m, ln, lc)" by (cases x)
      with Some False L le sub [of m] show ?thesis by simp
    qed
  qed
next
  case (4 e pLastNd nLastCnt aMrgSet c cs)
  define pTmp where "pTmp = (if m_pChildList c \<noteq> [] then Compress e c else c)"
  have p: "size pTmp \<le> size c" using "4.IH"(1) by (simp add: pTmp_def)
  show ?case
  proof (cases "gap e pLastNd nLastCnt pTmp")
    case True
    with "4.IH"(2) [OF pTmp_def] p show ?thesis by (simp add: pTmp_def [symmetric])
  next
    case False
    show ?thesis
    proof (cases "Count (narrow (aAttrSet pTmp) aMrgSet) = 0")
      case True with False p show ?thesis by (simp add: pTmp_def [symmetric])
    next
      case nz: False
      from "4.IH"(3) [OF pTmp_def False refl nz] p False nz show ?thesis
        by (simp add: pTmp_def [symmetric] case_prod_beta Let_def)
    qed
  qed
qed auto

lemma size_child: "c \<in> set (m_pChildList t) \<Longrightarrow> size c < size t"
  by (cases t) (auto simp: less_Suc_eq_le size_list_estimation')

lemma compress_child: "(if m_pChildList c \<noteq> [] then Compress e c else c) = Compress e c"
  by (cases c; cases "m_pChildList c") auto

function SetAttrSet :: "env \<Rightarrow> stack_type \<Rightarrow> event list" where
  "SetAttrSet e rSet =
     (let r = (if m_pChildList rSet \<noteq> [] then Compress e rSet else rSet)
      in (if Count (aAttrSet r) \<noteq> 0 \<or> nStyleNo r \<noteq> 0 then [SetAttrInDoc r] else []) @
         concat (map (SetAttrSet e) (m_pChildList r)))"
  by pat_completeness auto
termination
proof (relation "measure (\<lambda>(e, t). size t)", goal_cases)
  case 1 show ?case by simp
next
  case (2 e rSet r c)
  then have "size c < size r" by (simp add: size_child)
  moreover have "size r \<le> size rSet" using 2(1) size_Compress(1) [of e rSet] by simp
  ultimately show ?case by simp
qed

declare SetAttrSet.simps [simp del]

subsection \<open>The token dispatcher\<close>

text \<open>
  The loop of the text case of \<open>SvxRTFParser::NextToken\<close>: \<open>n\<close> counts down from the
  size of \<open>m_AttrSetList\<close>; each round applies the element at index \<open>n - 1\<close> and pops the
  last element.
\<close>

fun flush_loop :: "env \<Rightarrow> nat \<Rightarrow> stack_type list \<Rightarrow> event list \<Rightarrow> stack_type list \<times> event list" where
  "flush_loop e 0 l ev = (l, ev)"
| "flush_loop e (Suc n) l ev = flush_loop e n (butlast l) (ev @ SetAttrSet e (l ! n))"

text \<open>
  The text case: the text is inserted at the cursor, then the loop runs over
  \<open>m_AttrSetList\<close>.
\<close>

definition text_case :: "env \<Rightarrow> parser \<Rightarrow> OUString \<Rightarrow> parser" where
  "text_case e s aToken =
     (let ev = applied s @ [Inserted aToken];
          r = flush_loop e (length (m_AttrSetList s)) (m_AttrSetList s) ev
      in s\<lparr>pInsPos := InsertText e aToken (pInsPos s), m_AttrSetList := fst r, applied := snd r\<rparr>)"

text \<open>The character \<open>cCh\<close> of the tokens that jump to \<open>INSINGLECHAR\<close>.\<close>

definition single_char :: "token \<Rightarrow> nat option" where
  "single_char t = (case t of
       RTF_LINE \<Rightarrow> Some 10 | RTF_TAB \<Rightarrow> Some 9 | RTF_SUBENTRYINDEX \<Rightarrow> Some 58
     | RTF_EMDASH \<Rightarrow> Some 8212 | RTF_ENDASH \<Rightarrow> Some 8211 | RTF_BULLET \<Rightarrow> Some 8226
     | RTF_LQUOTE \<Rightarrow> Some 8216 | RTF_RQUOTE \<Rightarrow> Some 8217
     | RTF_LDBLQUOTE \<Rightarrow> Some 8220 | RTF_RDBLQUOTE \<Rightarrow> Some 8221
     | _ \<Rightarrow> None)"

text \<open>
  The cases of \<open>SvxRTFParser::NextToken\<close> that work on the text and on the scope stack:
  the text token, the single characters, which are turned into a text token, and the
  two braces. Every other case hands the token to a reader outside the scope stack and
  is \<open>None\<close> here.
\<close>

fun NextToken :: "env \<Rightarrow> parser \<Rightarrow> token \<Rightarrow> parser option" where
  "NextToken e s (RTF_TEXTTOKEN aToken) = Some (text_case e s aToken)"
| "NextToken e s BraceOpen =
     Some ((if bNewGroup s then GetAttrSet_x e s else s)\<lparr>bNewGroup := True\<rparr>)"
| "NextToken e s BraceClose =
     Some ((if \<not> bNewGroup s then AttrGroupEnd e s else s)\<lparr>bNewGroup := False\<rparr>)"
| "NextToken e s t =
     (case single_char t of Some cCh \<Rightarrow> Some (text_case e s [cCh]) | None \<Rightarrow> None)"

text \<open>
  The closed record as the check loop keeps it.
\<close>

definition kept_old :: "resolution \<Rightarrow> stack_type option" where
  "kept_old r = (case r of Dropped p \<Rightarrow> None | Split pOld pNew p \<Rightarrow> Some pOld
     | Single pOld b p \<Rightarrow> Some pOld)"

text \<open>
  The record \<open>r\<close> holds under the id \<open>k\<close> the very item its parent \<open>cur\<close> holds
  under \<open>k\<close>.
\<close>

definition redundant :: "stack_type \<Rightarrow> stack_type \<Rightarrow> which \<Rightarrow> bool" where
  "redundant cur r k =
     (GetItemState (aAttrSet r) k \<noteq> None \<and>
      GetItemState (aAttrSet r) k = GetItemState (aAttrSet cur) k)"

text \<open>
  The record that \<open>AttrGroupEnd\<close> pushes after it closed a parent early: a copy of the
  parent at the cursor, with the RTF defaults.
\<close>

definition reopened :: "env \<Rightarrow> stack_type \<Rightarrow> int \<times> int \<Rightarrow> stack_type" where
  "reopened e cur p =
     set_attrs (SetRTFDefaults (GetRTFDefaults e) (aAttrSet (copy_stack_type cur p True)))
       (copy_stack_type cur p True)"

section \<open>Chains of children\<close>

text \<open>
  The children \<open>cs\<close> continue the position \<open>(pLastNd, nLastCnt)\<close> and each other
  without a gap, by the test of \<open>Compress\<close>: a child with a non-zero start offset
  starts where the previous range ends; a child with start offset 0 starts in the
  paragraph after the one in which the previous range ends at the paragraph end.
\<close>

fun contiguous :: "env \<Rightarrow> int \<Rightarrow> int \<Rightarrow> stack_type list \<Rightarrow> bool" where
  "contiguous e pLastNd nLastCnt [] = True"
| "contiguous e pLastNd nLastCnt (c # cs) =
     (\<not> gap e pLastNd nLastCnt c \<and> contiguous e (pEndNd c) (nEndCnt c) cs)"

text \<open>
  The end of the last record of \<open>cs\<close>, or the position \<open>p\<close> when there is none.
\<close>

definition last_end :: "int \<times> int \<Rightarrow> stack_type list \<Rightarrow> int \<times> int" where
  "last_end p cs = (if cs = [] then p else (pEndNd (last cs), nEndCnt (last cs)))"

text \<open>
  A record and all records below it end strictly after they start, in the order of
  paragraph index and offset. And a document in which a paragraph has one end.
\<close>

fun proper :: "stack_type \<Rightarrow> bool" where
  "proper (StackType a sn sc en ec st cs) = ((sn, sc) < (en, ec) \<and> list_all proper cs)"

definition one_end :: "env \<Rightarrow> bool" where
  "one_end e = (\<forall>n c c'. IsEndPara e n c \<longrightarrow> IsEndPara e n c' \<longrightarrow> c = c')"

text \<open>A record ends strictly after it starts. A function on records keeps their ranges.\<close>

definition spans :: "stack_type \<Rightarrow> bool" where
  "spans c = ((pSttNd c, nSttCnt c) < (pEndNd c, nEndCnt c))"

definition same_range :: "(stack_type \<Rightarrow> stack_type) \<Rightarrow> bool" where
  "same_range g = (\<forall>c. pSttNd (g c) = pSttNd c \<and> nSttCnt (g c) = nSttCnt c \<and>
     pEndNd (g c) = pEndNd c \<and> nEndCnt (g c) = nEndCnt c)"

section \<open>Example inputs\<close>

text \<open>
  A document whose collaborators do nothing but count: text insertion advances the
  offset, the cursor cannot be moved, the id 1 is the only paragraph attribute.
\<close>

definition unit_env :: env where
  "unit_env = \<lparr>MovePos = (\<lambda>b p. p), IsEndPara = (\<lambda>n c. False), SetEndPrevPara = (\<lambda>p. p),
     InsertText = (\<lambda>t p. (fst p, snd p + int (length t))), GetDefaultItem = (\<lambda>k. 0),
     IsWhich = (\<lambda>k. True), aPardMap = [1], nScriptSpace = 0, bNewDoc = True,
     bChkStyleAttr = False\<rparr>"

definition idle :: parser where
  "idle = \<lparr>aAttrStack = [], m_AttrSetList = [], pInsPos = (0, 0), bNewGroup = False,
     m_StyleTable = (\<lambda>n. None), applied = []\<rparr>"

definition zero_span :: parser where
  "zero_span = \<lparr>aAttrStack = [StackType [(7, 1)] 2 3 2 3 0 [], StackType [] 0 0 0 0 0 []],
     m_AttrSetList = [], pInsPos = (2, 3), bNewGroup = False,
     m_StyleTable = (\<lambda>n. None), applied = []\<rparr>"

definition pending :: parser where
  "pending = \<lparr>aAttrStack = [],
     m_AttrSetList = [StackType [(7, 1)] 0 0 0 2 0 [], StackType [(8, 2)] 0 2 0 4 0 []],
     pInsPos = (0, 4), bNewGroup = False, m_StyleTable = (\<lambda>n. None), applied = []\<rparr>"

text \<open>
  A document of paragraphs of length 5: moving back from the start of a paragraph gives
  the end of the previous one, moving forward the start of the next one.
\<close>

definition para_env :: env where
  "para_env = \<lparr>MovePos = (\<lambda>b p. if b then (fst p + 1, 0) else (fst p - 1, 5)),
     IsEndPara = (\<lambda>n c. c = 5), SetEndPrevPara = (\<lambda>p. (fst p - 1, 5)),
     InsertText = (\<lambda>t p. (fst p, snd p + int (length t))), GetDefaultItem = (\<lambda>k. 0),
     IsWhich = (\<lambda>k. True), aPardMap = [1], nScriptSpace = 0, bNewDoc = True,
     bChkStyleAttr = False\<rparr>"

definition across :: parser where
  "across = \<lparr>aAttrStack = [StackType [(1, 10), (2, 20)] 0 0 0 0 0 []],
     m_AttrSetList = [], pInsPos = (1, 3), bNewGroup = False,
     m_StyleTable = (\<lambda>n. None), applied = []\<rparr>"



definition nested :: parser where
  "nested = \<lparr>aAttrStack = [StackType [(7, 1), (8, 2)] 0 0 0 0 0 [], StackType [(7, 1)] 0 0 0 0 0 []],
     m_AttrSetList = [], pInsPos = (0, 3), bNewGroup = False,
     m_StyleTable = (\<lambda>n. None), applied = []\<rparr>"

text \<open>
  A font table with two fonts declared under the number 0: Arial (swiss), then Courier
  (modern).
\<close>

definition plain_fonts :: font_env where
  "plain_fonts = \<lparr>nSystemChar = 1, FromWindowsCharset = (\<lambda>c. uint c), RTL_TEXTENCODING_SYMBOL = 10\<rparr>"

definition arial :: OUString where "arial = [65, 114, 105, 97, 108]"
definition courier :: OUString where "courier = [67, 111, 117, 114, 105, 101, 114]"

definition two_fonts :: "token list" where
  "two_fonts = [BraceOpen, RTF_F 0, RTF_FSWISS, RTF_TEXTTOKEN (arial @ [59]), BraceClose,
                BraceOpen, RTF_F 0, RTF_FMODERN, RTF_TEXTTOKEN (courier @ [59]), BraceClose,
                BraceClose]"

text \<open>
  Two children that cover their parent and both hold the item 7 with value 1; the second
  has a child of its own that holds 7 with value 2 over its whole range. And a parent
  covered by two children without children of their own.
\<close>

definition pair_cover :: stack_type where
  "pair_cover = StackType [] 0 0 0 2 0
     [StackType [(7, 1)] 0 0 0 1 0 [],
      StackType [(7, 1)] 0 1 0 2 0 [StackType [(7, 2)] 0 1 0 2 0 []]]"

definition leaf_cover :: stack_type where
  "leaf_cover = StackType [] 0 0 0 2 0
     [StackType [(7, 1), (8, 2)] 0 0 0 1 0 [], StackType [(7, 1)] 0 1 0 2 0 []]"

text \<open>
  A parent covered by three children, the second of which starts where it ends.
\<close>

definition thin_child :: stack_type where
  "thin_child = StackType [] 0 0 0 2 0
     [StackType [(7, 1), (8, 2)] 0 0 0 1 0 [], StackType [(7, 1)] 0 1 0 1 0 [],
      StackType [(7, 1), (8, 2)] 0 1 0 2 0 []]"

text \<open>
  A document in which every position counts as the end of its paragraph, and a parent
  covered by three children of non-empty range, the last in the next paragraph.
\<close>

definition all_ends :: env where
  "all_ends = unit_env\<lparr>IsEndPara := (\<lambda>n c. True)\<rparr>"

definition two_ends :: stack_type where
  "two_ends = StackType [] 0 0 1 1 0
     [StackType [(7, 1), (8, 2)] 0 0 0 1 0 [], StackType [(7, 1)] 0 1 0 2 0 [],
      StackType [(7, 1), (8, 2)] 1 0 1 1 0 []]"

text \<open>
  A parser that does not read a new document, so that every record is seeded with the
  script-space item (id 9, value 0); the ids 1, 2 and 9 are the paragraph attributes. The
  record on top holds two paragraph attributes and a character attribute besides the
  seeded item, which its parent holds too.
\<close>

definition rtf_env :: env where
  "rtf_env = para_env\<lparr>aPardMap := [1, 2, 9], nScriptSpace := 9, bNewDoc := False\<rparr>"

definition seeded :: parser where
  "seeded = \<lparr>aAttrStack = [StackType [(3, 20), (2, 11), (1, 10), (9, 0)] 0 0 0 0 0 [],
       StackType [(9, 0)] 0 0 0 0 0 []],
     m_AttrSetList = [], pInsPos = (1, 3), bNewGroup = False,
     m_StyleTable = (\<lambda>n. None), applied = []\<rparr>"

section \<open>Properties of the color table\<close>

lemma color_token_cases:
  "color_token st t = (if commits t then color_commit st
     else if channel t then color_token st t else st)"
  by (cases t) (auto simp: commits_def channel_def)

lemma color_commit_tail:
  "COL_AUTO \<notin> set (tl (aColorTbl st)) \<Longrightarrow> COL_AUTO \<notin> set (tl (aColorTbl (color_commit st)))"
  by (cases "aColorTbl st") (auto simp: color_commit_def Let_def)

lemma color_token_tail:
  "COL_AUTO \<notin> set (tl (aColorTbl st)) \<Longrightarrow> COL_AUTO \<notin> set (tl (aColorTbl (color_token st t)))"
  by (cases t) (auto simp: color_commit_tail)

lemma color_loop_tail:
  "COL_AUTO \<notin> set (tl (aColorTbl st)) \<Longrightarrow>
   COL_AUTO \<notin> set (tl (aColorTbl (fst (color_loop st ts))))"
proof (induction ts arbitrary: st)
  case Nil then show ?case by simp
next
  case (Cons t ts)
  show ?case
  proof (cases "t = BraceClose")
    case True with Cons.prems show ?thesis by simp
  next
    case False
    have "COL_AUTO \<notin> set (tl (aColorTbl (fst (color_loop (color_token st t) ts))))"
      by (rule Cons.IH) (rule color_token_tail [OF Cons.prems])
    with False show ?thesis by simp
  qed
qed

lemma color_token_idle: "\<not> channel t \<Longrightarrow> \<not> commits t \<Longrightarrow> color_token st t = st"
  using color_token_cases [of st t] by simp

lemma color_loop_prefix:
  "\<forall>t\<in>set pre. \<not> channel t \<and> \<not> commits t \<and> t \<noteq> BraceClose \<Longrightarrow>
   color_loop st (pre @ ts) = color_loop st ts"
  by (induction pre) (simp_all add: color_token_idle)

lemma color_loop_grows:
  "\<exists>xs. aColorTbl (fst (color_loop st ts)) = aColorTbl st @ xs"
proof (induction ts arbitrary: st)
  case Nil then show ?case by simp
next
  case (Cons t ts)
  have step: "\<exists>ys. aColorTbl (color_token st t) = aColorTbl st @ ys"
    by (cases t) (auto simp: color_commit_def Let_def)
  from Cons.IH [of "color_token st t"] step show ?case by (cases "t = BraceClose") auto
qed

lemma fst_ReadColorTable:
  "fst (ReadColorTable tbl ts) =
   aColorTbl (fst (color_loop \<lparr>aColorTbl = tbl, nRed = 255, nGreen = 255, nBlue = 255\<rparr> ts))"
  by (simp add: ReadColorTable_def case_prod_beta)

lemma commits_not_close: "commits c \<Longrightarrow> c \<noteq> BraceClose"
  by (auto simp: commits_def)

lemma first_auto:
  assumes "\<forall>t\<in>set pre. \<not> channel t \<and> \<not> commits t \<and> t \<noteq> BraceClose" "commits c"
  shows "\<exists>tbl. fst (ReadColorTable [] (pre @ c # rest)) = COL_AUTO # tbl"
proof -
  let ?st = "\<lparr>aColorTbl = [], nRed = 255, nGreen = 255, nBlue = 255\<rparr>"
  have c: "color_token ?st c = color_commit ?st"
    using color_token_cases [of ?st c] assms(2) by simp
  have "color_loop ?st (pre @ c # rest) = color_loop (color_commit ?st) rest"
    using assms commits_not_close [OF assms(2)] by (simp add: color_loop_prefix c)
  moreover have "aColorTbl (color_commit ?st) = [COL_AUTO]"
    by (simp add: color_commit_def)
  ultimately obtain xs where
    "aColorTbl (fst (color_loop ?st (pre @ c # rest))) = [COL_AUTO] @ xs"
    using color_loop_grows [of "color_commit ?st" rest] by auto
  then show ?thesis by (simp add: fst_ReadColorTable)
qed

text \<open>
  C8. When the color table is empty and the first color is finished while the three
  channel accumulators still hold their initial value, the entry stored first is
  \<open>COL_AUTO\<close> and not RGB white. Every token that finishes a color leaves the
  three accumulators at 0 and adds one entry. No entry after the first position is ever
  \<open>COL_AUTO\<close>.
\<close>

theorem color_auto_substitution:
  "(\<forall>pre c rest. (\<forall>t\<in>set pre. \<not> channel t \<and> \<not> commits t \<and> t \<noteq> BraceClose) \<and> commits c \<longrightarrow>
      (\<exists>tbl. fst (ReadColorTable [] (pre @ c # rest)) = COL_AUTO # tbl
         \<and> COL_AUTO # tbl \<noteq> Color 255 255 255 # tbl)) \<and>
   (\<forall>st t. commits t \<longrightarrow>
      nRed (color_token st t) = 0 \<and> nGreen (color_token st t) = 0 \<and> nBlue (color_token st t) = 0
      \<and> length (aColorTbl (color_token st t)) = Suc (length (aColorTbl st))) \<and>
   (\<forall>tbl ts. COL_AUTO \<notin> set (tl tbl) \<longrightarrow> COL_AUTO \<notin> set (tl (fst (ReadColorTable tbl ts))))"
proof (intro conjI allI impI)
  fix pre c rest
  assume "(\<forall>t\<in>set pre. \<not> channel t \<and> \<not> commits t \<and> t \<noteq> BraceClose) \<and> commits c"
  then show "\<exists>tbl. fst (ReadColorTable [] (pre @ c # rest)) = COL_AUTO # tbl
         \<and> COL_AUTO # tbl \<noteq> Color 255 255 255 # tbl"
    using first_auto [of pre c rest] by auto
next
  fix st t assume "commits t"
  then have "color_token st t = color_commit st" using color_token_cases [of st t] by simp
  then show "nRed (color_token st t) = 0" "nGreen (color_token st t) = 0" "nBlue (color_token st t) = 0"
    "length (aColorTbl (color_token st t)) = Suc (length (aColorTbl st))"
    by (simp_all add: color_commit_def Let_def)
next
  fix tbl ts assume "COL_AUTO \<notin> set (tl tbl)"
  then have "COL_AUTO \<notin> set (tl (aColorTbl (fst (color_loop
      \<lparr>aColorTbl = tbl, nRed = 255, nGreen = 255, nBlue = 255\<rparr> ts))))"
    by (intro color_loop_tail) simp
  then show "COL_AUTO \<notin> set (tl (fst (ReadColorTable tbl ts)))"
    by (simp add: fst_ReadColorTable)
qed

theorem color_auto_substitution_witness:
  "fst (ReadColorTable [] ([RTF_OTHER] @ Semicolon # [RTF_RED 255, RTF_GREEN 255, RTF_BLUE 255, RTF_TEXTTOKEN [59], BraceClose]))
     = [COL_AUTO, Color 255 255 255] \<and>
   commits (RTF_TEXTTOKEN [59]) \<and>
   nRed (color_token \<lparr>aColorTbl = [], nRed = 7, nGreen = 8, nBlue = 9\<rparr> (RTF_TEXTTOKEN [59])) = 0 \<and>
   COL_AUTO \<notin> set (tl (fst (ReadColorTable [] [Semicolon, Semicolon, BraceClose])))"
  using color_auto_substitution
  by (simp add: fst_ReadColorTable color_commit_def commits_def channel_def)

section \<open>Properties of the font table\<close>

lemma insert_font_keeps: "tbl k = Some f \<Longrightarrow> insert_font k' f' tbl k = Some f"
  by (auto simp: insert_font_def)

lemma font_open_table: "m_FontTable (fst (font_open st ts)) = m_FontTable st"
  by (simp add: font_open_def split: list.splits token.splits)

lemma font_token_table: "m_FontTable (fst (fst (font_token fe st t ts))) = m_FontTable st"
  by (cases "(fe, st, t, ts)" rule: font_token.cases) (simp_all add: font_open_table Let_def)

lemma font_step_keeps:
  "m_FontTable st k = Some f \<Longrightarrow> m_FontTable (fst (font_step fe st t ts)) k = Some f"
  by (simp add: font_step_def Let_def font_ready_def font_token_table insert_font_keeps)

lemma font_loop_keeps:
  "m_FontTable st k = Some f \<Longrightarrow> m_FontTable (font_loop fe st ts) k = Some f"
proof (induction fe st ts rule: font_loop.induct)
  case (1 fe st) then show ?case by simp
next
  case (2 fe st t ts)
  then show ?case by (simp add: font_step_keeps)
qed

text \<open>
  A font that the table holds under a number stays there whatever the reader reads:
  a later font with the same number does not replace it.
\<close>

lemma font_table_keeps_earlier:
  "tbl k = Some f \<Longrightarrow> GetFont (ReadFontTable fe tbl ts) k = Some f"
  by (simp add: ReadFontTable_def GetFont_def font_loop_keeps)

text \<open>
  C2. At a font table that declares Arial and then Courier under the number 0, the
  reader leaves the number 0 mapped to Arial, the font declared first; the later
  declaration does not replace it.
\<close>

theorem font_redefinition_at_two_fonts:
  "GetFont (ReadFontTable plain_fonts Map.empty two_fonts) 0 =
     Some \<lparr>FamilyName = arial, Family = FAMILY_SWISS, Pitch = PITCH_DONTKNOW, CharSet = 1\<rparr>"
  by (simp add: ReadFontTable_def GetFont_def two_fonts_def plain_fonts_def font_step_def
      font_ready_def insert_font_def new_font_def font_open_def DelCharAtEnd_def arial_def
      courier_def Let_def)

section \<open>Lookups in the attribute collections\<close>

lemma map_of_filter_key:
  "map_of (filter (\<lambda>p. P (fst p)) xs) k = (if P k then map_of xs k else None)"
  by (induction xs) auto

lemma Count_0: "Count s = 0 \<longleftrightarrow> s = []"
  by (cases s) (auto simp: Count_def)

lemma Get_Nil [simp]: "GetItemState [] k = None"
  by (simp add: GetItemState_def)

lemma Get_diff_items:
  "GetItemState (diff_items cur old) k =
     (if GetItemState cur k = GetItemState old k then None else GetItemState old k)"
  unfolding diff_items_def GetItemState_def
  by (simp add: map_of_filter_key [where P = "\<lambda>k. map_of cur k \<noteq> map_of old k"])

lemma Get_ClearItem: "GetItemState (ClearItem n s) k = (if k = n then None else GetItemState s k)"
  unfolding ClearItem_def GetItemState_def
  by (simp add: map_of_filter_key [where P = "\<lambda>k. k \<noteq> n"])

lemma attrs_set_attrs [simp]: "aAttrSet (set_attrs a t) = a"
  by (simp add: set_attrs_def)

lemma attrs_set_end [simp]: "aAttrSet (set_end n c t) = aAttrSet t"
  by (simp add: set_end_def)

lemma Get_filter_key:
  assumes "\<And>p q. fst p = fst q \<Longrightarrow> Q p = Q q"
  shows "GetItemState (filter Q s) k = None \<or> GetItemState (filter Q s) k = GetItemState s k"
proof -
  have "filter Q s = filter (\<lambda>p. Q (fst p, 0)) s"
    by (rule filter_cong [OF refl]) (rule assms, simp)
  then show ?thesis
    unfolding GetItemState_def
    by (simp only: map_of_filter_key [where P = "\<lambda>k. Q (k, 0)"] split: if_splits) simp
qed

lemma Get_ClearStyleAttr:
  "GetItemState (aAttrSet (ClearStyleAttr_x e tbl r)) k = None \<or>
   GetItemState (aAttrSet (ClearStyleAttr_x e tbl r)) k = GetItemState (aAttrSet r) k"
proof (cases "\<not> bChkStyleAttr e \<or> Count (aAttrSet r) = 0 \<or> tbl (nStyleNo r) = None")
  case True
  then have "ClearStyleAttr_x e tbl r =
      set_attrs (filter (\<lambda>p. \<not> (IsWhich e (fst p) \<and>
         GetItemState (aAttrSet r) (fst p) = Some (GetDefaultItem e (fst p)))) (aAttrSet r)) r"
    by (simp add: ClearStyleAttr_x_def Let_def)
  then show ?thesis
    by (simp only: attrs_set_attrs) (rule Get_filter_key, simp)
next
  case False
  then obtain rStyleSet where st: "tbl (nStyleNo r) = Some rStyleSet" by auto
  with False have "ClearStyleAttr_x e tbl r =
      set_attrs (filter (\<lambda>p. \<not> (case GetItemState rStyleSet (fst p) of
            Some pSItem \<Rightarrow> GetItemState (aAttrSet r) (fst p) = Some pSItem
          | None \<Rightarrow> IsWhich e (fst p) \<and>
              GetItemState (aAttrSet r) (fst p) = Some (GetDefaultItem e (fst p))))
         (aAttrSet r)) r"
    by (simp add: ClearStyleAttr_x_def Let_def)
  then show ?thesis
    by (simp only: attrs_set_attrs) (rule Get_filter_key, simp split: option.splits)
qed

lemma Get_parent_diff:
  "GetItemState (aAttrSet cur) k = Some v \<Longrightarrow>
   GetItemState (aAttrSet (parent_diff (Some cur) pOld)) k \<noteq> Some v"
  by (auto simp: parent_diff_def Get_diff_items Count_0)

lemma map_of_replace:
  "map_of (map (\<lambda>p. if fst p = n then (n, v) else p) s) k =
     (if k = n \<and> map_of s n \<noteq> None then Some v else map_of s k)"
  by (induction s) auto

lemma Get_PutItem:
  "GetItemState (PutItem n v s) k = (if k = n then Some v else GetItemState s k)"
  by (simp add: PutItem_def GetItemState_def map_of_replace)

lemma Get_Cons:
  "GetItemState (p # s) k = (if k = fst p then Some (snd p) else GetItemState s k)"
  by (cases p) (simp add: GetItemState_def)

lemma Get_Put:
  "GetItemState (Put src dst) k =
     (case GetItemState src k of Some v \<Rightarrow> Some v | None \<Rightarrow> GetItemState dst k)"
proof (induction src)
  case Nil show ?case by (simp add: Put_def)
next
  case (Cons p src)
  have "Put (p # src) dst = PutItem (fst p) (snd p) (Put src dst)" by (simp add: Put_def)
  then show ?case using Cons
    by (simp add: Get_PutItem Get_Cons)
qed

lemma Get_copy [simp]: "GetItemState (Put s []) k = GetItemState s k"
  by (simp add: Get_Put split: option.splits)

lemma Get_clear_pard:
  "GetItemState (clear_pard ns s) k =
     (if k \<in> set ns \<and> k \<noteq> 0 then None else GetItemState s k)"
proof (induction ns arbitrary: s)
  case Nil show ?case by simp
next
  case (Cons n ns)
  show ?case
  proof (cases "Count s = 0")
    case True then show ?thesis by (simp add: Count_0)
  next
    case False then show ?thesis by (auto simp: Cons.IH Get_ClearItem)
  qed
qed

lemma Get_SetRTFDefaults:
  "GetItemState (SetRTFDefaults d a) k =
     (case GetItemState a k of Some v \<Rightarrow> Some v | None \<Rightarrow> GetItemState d k)"
proof (induction d arbitrary: a)
  case Nil show ?case by (simp add: SetRTFDefaults_def split: option.splits)
next
  case (Cons p d)
  have "SetRTFDefaults (p # d) a =
      SetRTFDefaults d (if GetItemState a (fst p) = None then PutItem (fst p) (snd p) a else a)"
    by (simp add: SetRTFDefaults_def)
  then show ?case
    by (auto simp: Cons.IH Get_PutItem Get_Cons split: option.splits)
qed

section \<open>Properties of closing a scope\<close>

lemma AttrGroupEnd_empty: "aAttrStack s = [] \<Longrightarrow> AttrGroupEnd e s = s"
  by (subst AttrGroupEnd.simps) simp

text \<open>
  C10. With an empty scope stack and no group pending, closing a scope, by the token
  \<open>}\<close> or by \<open>AttrGroupEnd\<close> itself, returns the parser as it was: the stack,
  \<open>m_AttrSetList\<close> and the cursor are unchanged.
\<close>

theorem close_on_empty_stack:
  "aAttrStack s = [] \<Longrightarrow> \<not> bNewGroup s \<Longrightarrow>
   AttrGroupEnd e s = s \<and> NextToken e s BraceClose = Some s"
  by (simp add: AttrGroupEnd_empty)

theorem close_on_empty_stack_witness:
  "aAttrStack idle = [] \<and> \<not> bNewGroup idle \<and>
   AttrGroupEnd unit_env idle = idle \<and> NextToken unit_env idle BraceClose = Some idle"
  using close_on_empty_stack [of idle unit_env] by (simp add: idle_def)

lemma AttrGroupEnd_Dropped:
  "aAttrStack s = pOld # stk \<Longrightarrow>
   resolve e s pOld (case stk of [] \<Rightarrow> None | c # cs \<Rightarrow> Some c) = Dropped p \<Longrightarrow>
   AttrGroupEnd e s = s\<lparr>aAttrStack := stk, bNewGroup := False, pInsPos := p\<rparr>"
  by (subst AttrGroupEnd.simps) simp

text \<open>
  C7. Closing a record that starts at the cursor and has neither children nor a style
  only pops it: the rest of the stack (with the parent and its children),
  \<open>m_AttrSetList\<close> and the cursor stay as they are.
\<close>

theorem zero_span_discard:
  assumes "aAttrStack s = pOld # stk"
    and "m_pChildList pOld = []" and "nStyleNo pOld = 0"
    and "pSttNd pOld = fst (pInsPos s)" and "nSttCnt pOld = snd (pInsPos s)"
  shows "AttrGroupEnd e s = s\<lparr>aAttrStack := stk, bNewGroup := False\<rparr>"
proof -
  have "resolve e s pOld (case stk of [] \<Rightarrow> None | c # cs \<Rightarrow> Some c) = Dropped (pInsPos s)"
    using assms by (simp add: resolve_def no_area_def)
  from AttrGroupEnd_Dropped [OF assms(1) this] show ?thesis by simp
qed

theorem zero_span_discard_witness:
  "AttrGroupEnd unit_env zero_span =
     zero_span\<lparr>aAttrStack := [StackType [] 0 0 0 0 0 []], bNewGroup := False\<rparr>"
  using zero_span_discard [of zero_span "StackType [(7, 1)] 2 3 2 3 0 []"
      "[StackType [] 0 0 0 0 0 []]" unit_env]
  by (simp add: zero_span_def)

section \<open>Comparison with the parent\<close>

lemma split_para_old:
  "split_para e tbl pos pOld = Some (a, b) \<Longrightarrow>
   GetItemState (aAttrSet a) k = None \<or> GetItemState (aAttrSet a) k = GetItemState (aAttrSet pOld) k"
  using Get_ClearStyleAttr [of e tbl "set_end (fst (SetEndPrevPara e pos)) (snd (SetEndPrevPara e pos)) pOld" k]
  by (auto simp: split_para_def Let_def split: if_splits)

lemma resolve_old:
  "kept_old (resolve e s pOld0 pCurrent) = Some r \<Longrightarrow>
   GetItemState (aAttrSet r) k = None \<or>
   GetItemState (aAttrSet r) k = GetItemState (aAttrSet (parent_diff pCurrent pOld0)) k"
  using Get_ClearStyleAttr [of e "m_StyleTable s"
      "set_end (fst (snd (cursor_back e (pInsPos s)))) (snd (snd (cursor_back e (pInsPos s))))
         (parent_diff pCurrent pOld0)" k]
  by (auto simp: resolve_def kept_old_def Let_def split: if_splits option.splits dest: split_para_old)

section \<open>The split at the paragraph boundary\<close>

lemma Count_card: "Count s = card {k. GetItemState s k \<noteq> None}"
proof -
  have "{k. map_of s k \<noteq> None} = set (map fst s)"
    by (auto simp: map_of_eq_None_iff)
  then show ?thesis
    by (simp add: Count_def GetItemState_def length_remdups_card_conv)
qed

lemma finite_keys: "finite {k. GetItemState s k \<noteq> None}"
proof -
  have "{k. map_of s k \<noteq> None} = set (map fst s)"
    by (auto simp: map_of_eq_None_iff)
  then show ?thesis by (simp add: GetItemState_def)
qed

lemma Count_clear_pard_less:
  assumes "k \<in> set ns" "k \<noteq> 0" "GetItemState s k \<noteq> None"
  shows "Count (clear_pard ns (Put s [])) < Count s"
proof -
  have "{j. GetItemState (clear_pard ns (Put s [])) j \<noteq> None} \<subset> {j. GetItemState s j \<noteq> None}"
    using assms by (auto simp: Get_clear_pard)
  then show ?thesis
    unfolding Count_card by (rule psubset_card_mono [OF finite_keys])
qed

lemma cursor_back_mid: "snd pos \<noteq> 0 \<Longrightarrow> cursor_back e pos = (False, pos)"
  by (simp add: cursor_back_def)

lemma parent_diff_frame [simp]:
  "pSttNd (parent_diff c t) = pSttNd t" "nSttCnt (parent_diff c t) = nSttCnt t"
  "nStyleNo (parent_diff c t) = nStyleNo t" "m_pChildList (parent_diff c t) = m_pChildList t"
  by (auto simp: parent_diff_def set_attrs_def split: option.splits)

lemma Get_parent_diff_sub:
  "GetItemState (aAttrSet (parent_diff c t)) k \<noteq> None \<Longrightarrow> GetItemState (aAttrSet t) k \<noteq> None"
  by (auto simp: parent_diff_def Get_diff_items split: option.splits if_splits)


lemma SetRTFDefaults_Nil [simp]: "SetRTFDefaults [] a = a"
  by (simp add: SetRTFDefaults_def)

lemma resolve_split:
  assumes old: "pOld = parent_diff pCurrent pOld0"
    and before: "pSttNd pOld0 < fst (pInsPos s)"
    and mid: "snd (pInsPos s) \<noteq> 0"
    and pard: "k \<in> set (aPardMap e)" "k \<noteq> 0" "GetItemState (aAttrSet pOld) k \<noteq> None"
    and nodef: "GetRTFDefaults e = []"
    and filt: "filt = (if bChkStyleAttr e then ClearStyleAttr_x e (m_StyleTable s) else (\<lambda>r. r))"
  shows "resolve e s pOld0 pCurrent =
      Split (filt (set_end (fst (SetEndPrevPara e (pInsPos s))) (snd (SetEndPrevPara e (pInsPos s))) pOld))
            (filt (StackType (clear_pard (aPardMap e) (Put (aAttrSet pOld) []))
                     (fst (pInsPos s)) 0 (fst (pInsPos s)) (snd (pInsPos s)) 0 []))
            (pInsPos s)"
proof -
  have has0: "GetItemState (aAttrSet pOld0) k \<noteq> None"
    using pard(3) old Get_parent_diff_sub by blast
  then have c0: "Count (aAttrSet pOld0) \<noteq> 0" by (auto simp: Count_0)
  have c1: "Count (aAttrSet pOld) \<noteq> 0" using pard(3) by (auto simp: Count_0)
  have na: "\<not> no_area (pInsPos s) pOld0" using before c0 by (simp add: no_area_def)
  have cb: "cursor_back e (pInsPos s) = (False, pInsPos s)" using mid by (rule cursor_back_mid)
  have sb: "starts_before pOld (pInsPos s)" using before old by (simp add: starts_before_def)
  have ne: "pSttNd pOld \<noteq> fst (pInsPos s)" using before old by simp
  have less: "Count (clear_pard (aPardMap e) (Put (aAttrSet pOld) [])) \<noteq> Count (aAttrSet pOld)"
    using Count_clear_pard_less [OF pard] by simp
  have sp: "split_para e (m_StyleTable s) (pInsPos s) pOld =
      Some (filt (set_end (fst (SetEndPrevPara e (pInsPos s))) (snd (SetEndPrevPara e (pInsPos s))) pOld),
            filt (StackType (clear_pard (aPardMap e) (Put (aAttrSet pOld) []))
                     (fst (pInsPos s)) 0 (fst (pInsPos s)) (snd (pInsPos s)) 0 []))"
    using less by (simp add: split_para_def Let_def nodef filt copy_stack_type_def)
  show ?thesis
    using na c1 sb ne by (simp add: resolve_def Let_def cb old [symmetric] sp)
qed

lemma AttrGroupEnd_Split:
  "aAttrStack s = pOld0 # stk \<Longrightarrow>
   resolve e s pOld0 (case stk of [] \<Rightarrow> None | c # cs \<Rightarrow> Some c) = Split r1 r2 pos \<Longrightarrow>
   AttrGroupEnd e s =
     (case stk of
        cur # rest \<Rightarrow> s\<lparr>aAttrStack := Add r2 (Add r1 cur) # rest, bNewGroup := False, pInsPos := pos\<rparr>
      | [] \<Rightarrow> s\<lparr>aAttrStack := [], bNewGroup := False,
                m_AttrSetList := m_AttrSetList s @ [r1, r2], pInsPos := pos\<rparr>)"
  by (subst AttrGroupEnd.simps) (simp split: list.splits)

text \<open>
  C1, as the code has it. A record that starts in an earlier paragraph than the cursor
  and is closed with the cursor inside a paragraph, holding a paragraph attribute after
  the comparison with the parent, and with no RTF defaults, is replaced by two records.
  The earlier one keeps all items of the record, paragraph and character attributes
  alike, and ends at the end of the previous paragraph. The later one starts at offset 0
  of the cursor's paragraph, has style 0, ends at the cursor and holds the items of the
  record that are not paragraph attributes. With style checking both are checked
  against the style. Both go to the parent, or to \<open>m_AttrSetList\<close> without one.
\<close>

theorem paragraph_split:
  assumes stk: "aAttrStack s = pOld0 # stk"
    and old: "pOld = parent_diff (case stk of [] \<Rightarrow> None | c # cs \<Rightarrow> Some c) pOld0"
    and before: "pSttNd pOld0 < fst (pInsPos s)"
    and mid: "snd (pInsPos s) \<noteq> 0"
    and pard: "k \<in> set (aPardMap e)" "k \<noteq> 0" "GetItemState (aAttrSet pOld) k \<noteq> None"
    and nodef: "GetRTFDefaults e = []"
    and filt: "filt = (if bChkStyleAttr e then ClearStyleAttr_x e (m_StyleTable s) else (\<lambda>r. r))"
    and r1: "r1 = filt (set_end (fst (SetEndPrevPara e (pInsPos s)))
                          (snd (SetEndPrevPara e (pInsPos s))) pOld)"
    and r2: "r2 = filt (StackType (clear_pard (aPardMap e) (Put (aAttrSet pOld) []))
                          (fst (pInsPos s)) 0 (fst (pInsPos s)) (snd (pInsPos s)) 0 [])"
  shows "AttrGroupEnd e s =
           (case stk of
              cur # rest \<Rightarrow> s\<lparr>aAttrStack := Add r2 (Add r1 cur) # rest, bNewGroup := False\<rparr>
            | [] \<Rightarrow> s\<lparr>aAttrStack := [], bNewGroup := False,
                      m_AttrSetList := m_AttrSetList s @ [r1, r2]\<rparr>) \<and>
         GetItemState (clear_pard (aPardMap e) (Put (aAttrSet pOld) [])) j =
           (if j \<in> set (aPardMap e) \<and> j \<noteq> 0 then None else GetItemState (aAttrSet pOld) j)"
proof -
  have "resolve e s pOld0 (case stk of [] \<Rightarrow> None | c # cs \<Rightarrow> Some c) = Split r1 r2 (pInsPos s)"
    unfolding r1 r2 by (rule resolve_split [OF old before mid pard nodef filt])
  from AttrGroupEnd_Split [OF stk this]
  have "AttrGroupEnd e s =
           (case stk of
              cur # rest \<Rightarrow> s\<lparr>aAttrStack := Add r2 (Add r1 cur) # rest, bNewGroup := False\<rparr>
            | [] \<Rightarrow> s\<lparr>aAttrStack := [], bNewGroup := False,
                      m_AttrSetList := m_AttrSetList s @ [r1, r2]\<rparr>)"
    by (simp split: list.splits)
  then show ?thesis
    by (simp add: Get_clear_pard)
qed

theorem paragraph_split_witness:
  "AttrGroupEnd para_env across =
     across\<lparr>aAttrStack := [], bNewGroup := False,
       m_AttrSetList := [StackType [(1, 10), (2, 20)] 0 0 0 5 0 [], StackType [(2, 20)] 1 0 1 3 0 []]\<rparr>"
  using paragraph_split [of across "StackType [(1, 10), (2, 20)] 0 0 0 0 0 []" "[]"
      "StackType [(1, 10), (2, 20)] 0 0 0 0 0 []" 1 para_env "\<lambda>r. r"
      "StackType [(1, 10), (2, 20)] 0 0 0 5 0 []" "StackType [(2, 20)] 1 0 1 3 0 []" 0]
  by (simp add: across_def para_env_def parent_diff_def GetItemState_def GetRTFDefaults_def
      set_end_def Put_def PutItem_def Count_def ClearItem_def)

text \<open>
  The earlier record of a split does not hold the paragraph attributes only: here it
  keeps the item 2, which is no paragraph attribute.
\<close>

theorem paragraph_split_counterexample:
  "m_AttrSetList (AttrGroupEnd para_env across) =
     [StackType [(1, 10), (2, 20)] 0 0 0 5 0 [], StackType [(2, 20)] 1 0 1 3 0 []] \<and>
   aPardMap para_env = [1] \<and> GetItemState [(1, 10), (2, 20)] 2 = Some 20"
  by (simp add: AttrGroupEnd.simps across_def para_env_def resolve_def no_area_def Count_def
      parent_diff_def cursor_back_def starts_before_def split_para_def copy_stack_type_def
      Put_def PutItem_def GetItemState_def ClearItem_def GetRTFDefaults_def SetRTFDefaults_def
      set_end_def Let_def)

section \<open>The bound on the children of a parent\<close>

lemma AttrGroupEnd_Single_parent:
  "aAttrStack s = pOld0 # cur # rest \<Longrightarrow>
   resolve e s pOld0 (Some cur) = Single r b pos \<Longrightarrow>
   AttrGroupEnd e s =
     (if b \<and> 50 < length (m_pChildList (Add r cur))
      then (let s2 = AttrGroupEnd e (s\<lparr>aAttrStack := Add r cur # rest, pInsPos := MovePos e True pos\<rparr>)
            in s2\<lparr>aAttrStack :=
                  set_attrs (SetRTFDefaults (GetRTFDefaults e)
                     (aAttrSet (copy_stack_type (Add r cur) (MovePos e True pos) True)))
                    (copy_stack_type (Add r cur) (MovePos e True pos) True) # aAttrStack s2,
                  bNewGroup := False\<rparr>)
      else s\<lparr>aAttrStack := Add r cur # rest, bNewGroup := False,
             pInsPos := (if b then MovePos e True pos else pos)\<rparr>)"
  by (subst AttrGroupEnd.simps) (simp add: Let_def)

lemma resolve_Single_cursor:
  "resolve e s pOld0 pCurrent = Single r b pos \<Longrightarrow>
   b = fst (cursor_back e (pInsPos s)) \<and> pos = snd (cursor_back e (pInsPos s))"
  by (auto simp: resolve_def Let_def split: if_splits option.splits)

lemma resolve_Split_cursor:
  "resolve e s pOld0 pCurrent = Split r r' pos \<Longrightarrow>
   \<not> fst (cursor_back e (pInsPos s)) \<and> pos = snd (cursor_back e (pInsPos s))"
  by (auto simp: resolve_def Let_def split: if_splits option.splits)

lemma Add_children: "Add r cur = set_children (m_pChildList cur @ [r]) cur"
  by (simp add: Add_def)

lemma Add_Add_children: "Add r' (Add r cur) = set_children (m_pChildList cur @ [r, r']) cur"
  by (simp add: Add_def set_children_def)

lemma set_children_same: "set_children (m_pChildList cur) cur = cur"
  by (cases cur) (simp add: set_children_def)

lemma length_Add: "length (m_pChildList (Add r cur)) = Suc (length (m_pChildList cur))"
  by (simp add: Add_def set_children_def)

text \<open>What the close does with a parent on the stack, by the outcome of the check loop.\<close>

lemma AttrGroupEnd_parent:
  assumes stk: "aAttrStack s = pOld0 # cur # rest"
  shows "\<exists>added p.
     added = (case resolve e s pOld0 (Some cur) of Dropped q \<Rightarrow> []
               | Split r r' q \<Rightarrow> [r, r'] | Single r b q \<Rightarrow> [r]) \<and>
     AttrGroupEnd e s =
       (if added \<noteq> [] \<and> fst (cursor_back e (pInsPos s)) \<and> 50 \<le> length (m_pChildList cur)
        then (AttrGroupEnd e (s\<lparr>aAttrStack := set_children (m_pChildList cur @ added) cur # rest,
                                  pInsPos := p\<rparr>))
               \<lparr>aAttrStack :=
                  reopened e (set_children (m_pChildList cur @ added) cur) p #
                  aAttrStack (AttrGroupEnd e
                    (s\<lparr>aAttrStack := set_children (m_pChildList cur @ added) cur # rest,
                       pInsPos := p\<rparr>)),
                bNewGroup := False\<rparr>
        else s\<lparr>aAttrStack := set_children (m_pChildList cur @ added) cur # rest,
               pInsPos := p, bNewGroup := False\<rparr>)"
proof (cases "resolve e s pOld0 (Some cur)")
  case (Dropped q)
  from AttrGroupEnd_Dropped [of s pOld0 "cur # rest" e q] stk Dropped
  have "AttrGroupEnd e s = s\<lparr>aAttrStack := cur # rest, bNewGroup := False, pInsPos := q\<rparr>"
    by simp
  with Dropped show ?thesis
    by (intro exI [of _ "[]"] exI [of _ q]) (simp add: set_children_same)
next
  case (Split r r' q)
  from AttrGroupEnd_Split [of s pOld0 "cur # rest" e r r' q] stk Split
  have "AttrGroupEnd e s =
      s\<lparr>aAttrStack := Add r' (Add r cur) # rest, bNewGroup := False, pInsPos := q\<rparr>"
    by simp
  with Split resolve_Split_cursor [OF Split] show ?thesis
    by (intro exI [of _ "[r, r']"] exI [of _ q]) (simp add: Add_Add_children)
next
  case (Single r b q)
  from resolve_Single_cursor [OF Single]
  have b: "b = fst (cursor_back e (pInsPos s))" by simp
  let ?cur' = "set_children (m_pChildList cur @ [r]) cur"
  have cur': "Add r cur = ?cur'" by (rule Add_children)
  show ?thesis
  proof (cases "b \<and> 50 \<le> length (m_pChildList cur)")
    case True
    then have "b \<and> 50 < length (m_pChildList (Add r cur))"
      unfolding length_Add by arith
    with AttrGroupEnd_Single_parent [OF stk Single]
    have "AttrGroupEnd e s =
        (AttrGroupEnd e (s\<lparr>aAttrStack := Add r cur # rest, pInsPos := MovePos e True q\<rparr>))
          \<lparr>aAttrStack := reopened e (Add r cur) (MovePos e True q) #
             aAttrStack (AttrGroupEnd e
               (s\<lparr>aAttrStack := Add r cur # rest, pInsPos := MovePos e True q\<rparr>)),
           bNewGroup := False\<rparr>"
      by (simp add: Let_def reopened_def)
    with True Single b show ?thesis
      by (intro exI [of _ "[r]"] exI [of _ "MovePos e True q"]) (simp add: cur')
  next
    case False
    then have "\<not> (b \<and> 50 < length (m_pChildList (Add r cur)))"
      unfolding length_Add by arith
    with AttrGroupEnd_Single_parent [OF stk Single]
    have "AttrGroupEnd e s =
        s\<lparr>aAttrStack := Add r cur # rest, bNewGroup := False,
          pInsPos := (if b then MovePos e True q else q)\<rparr>"
      by simp
    with False Single b show ?thesis
      by (intro exI [of _ "[r]"] exI [of _ "if b then MovePos e True q else q"])
         (auto simp: cur')
  qed
qed





section \<open>Items equal to those of the parent\<close>

lemma Get_in_keys: "GetItemState d k = Some v \<Longrightarrow> k \<in> fst ` set d"
  unfolding GetItemState_def by (auto dest: map_of_SomeD intro: rev_image_eqI)

lemma redundantD:
  "redundant cur r k \<Longrightarrow>
   \<exists>v. GetItemState (aAttrSet r) k = Some v \<and> GetItemState (aAttrSet cur) k = Some v"
proof -
  assume "redundant cur r k"
  then have a: "GetItemState (aAttrSet r) k \<noteq> None"
    and b: "GetItemState (aAttrSet r) k = GetItemState (aAttrSet cur) k"
    unfolding redundant_def by blast+
  from a obtain v where v: "GetItemState (aAttrSet r) k = Some v" by blast
  from v b have "GetItemState (aAttrSet cur) k = Some v" by simp
  with v show ?thesis by blast
qed

lemma split_para_new:
  assumes "split_para e tbl pos pOld = Some (a, b)" and "GetItemState (aAttrSet b) k = Some v"
  shows "GetItemState (aAttrSet pOld) k = Some v \<or> k \<in> fst ` set (GetRTFDefaults e)"
proof -
  let ?a = "SetRTFDefaults (GetRTFDefaults e) (clear_pard (aPardMap e) (Put (aAttrSet pOld) []))"
  let ?n = "StackType ?a (fst pos) 0 (fst pos) (snd pos) 0 []"
  from assms(1) have "b = ?n \<or> b = ClearStyleAttr_x e tbl ?n"
    by (auto simp: split_para_def Let_def copy_stack_type_def split: if_splits)
  with assms(2) Get_ClearStyleAttr [of e tbl ?n k] have "GetItemState ?a k = Some v" by auto
  then show ?thesis
    by (auto simp: Get_SetRTFDefaults Get_clear_pard split: option.splits if_splits
        dest: Get_in_keys)
qed

lemma resolve_first:
  assumes "resolve e s pOld0 (Some cur) = Single r b q \<or>
           resolve e s pOld0 (Some cur) = Split r r' q"
  shows "\<not> redundant cur r k"
proof
  assume red: "redundant cur r k"
  then obtain v where v: "GetItemState (aAttrSet r) k = Some v"
    "GetItemState (aAttrSet cur) k = Some v"
    by (auto dest: redundantD)
  from assms have "kept_old (resolve e s pOld0 (Some cur)) = Some r"
    by (auto simp: kept_old_def)
  from resolve_old [OF this, of k] v(1)
  have "GetItemState (aAttrSet (parent_diff (Some cur) pOld0)) k = Some v" by auto
  with Get_parent_diff [OF v(2), of pOld0] show False by simp
qed

lemma resolve_second:
  assumes "resolve e s pOld0 (Some cur) = Split r r' q" and "redundant cur r' k"
  shows "k \<in> fst ` set (GetRTFDefaults e)"
proof -
  from assms(2) obtain v where v: "GetItemState (aAttrSet r') k = Some v"
    "GetItemState (aAttrSet cur) k = Some v"
    by (auto dest: redundantD)
  from assms(1) have
    sp: "split_para e (m_StyleTable s) (snd (cursor_back e (pInsPos s)))
           (parent_diff (Some cur) pOld0) = Some (r, r')"
    by (auto simp: resolve_def Let_def split: if_splits option.splits)
  from split_para_new [OF sp v(1)] Get_parent_diff [OF v(2), of pOld0]
  show ?thesis by auto
qed

text \<open>
  C3, as the code has it. Closing a record that has a parent adds at most two records
  to the children of the parent (and closes the parent early where the bound on its
  children applies). The first record added, the closed record itself, holds no item
  equal to the item the parent holds under the same id. The second record, the later
  piece of a split at the paragraph boundary, holds no such item either under any id
  other than those of the RTF defaults.
\<close>

theorem inheritance_redundancy:
  assumes "aAttrStack s = pOld # cur # rest"
  shows "\<exists>added p.
     AttrGroupEnd e s =
       (if added \<noteq> [] \<and> fst (cursor_back e (pInsPos s)) \<and> 50 \<le> length (m_pChildList cur)
        then (AttrGroupEnd e (s\<lparr>aAttrStack := set_children (m_pChildList cur @ added) cur # rest,
                                  pInsPos := p\<rparr>))
               \<lparr>aAttrStack :=
                  reopened e (set_children (m_pChildList cur @ added) cur) p #
                  aAttrStack (AttrGroupEnd e
                    (s\<lparr>aAttrStack := set_children (m_pChildList cur @ added) cur # rest,
                       pInsPos := p\<rparr>)),
                bNewGroup := False\<rparr>
        else s\<lparr>aAttrStack := set_children (m_pChildList cur @ added) cur # rest,
               pInsPos := p, bNewGroup := False\<rparr>) \<and>
     length added \<le> 2 \<and>
     (\<forall>r\<in>set (take 1 added). \<forall>k. \<not> redundant cur r k) \<and>
     (\<forall>r\<in>set (drop 1 added). \<forall>k. redundant cur r k \<longrightarrow> k \<in> fst ` set (GetRTFDefaults e))"
proof -
  from AttrGroupEnd_parent [OF assms, of e] obtain added p where
    added: "added = (case resolve e s pOld (Some cur) of Dropped q \<Rightarrow> []
               | Split r r' q \<Rightarrow> [r, r'] | Single r b q \<Rightarrow> [r])"
    and eq: "AttrGroupEnd e s =
       (if added \<noteq> [] \<and> fst (cursor_back e (pInsPos s)) \<and> 50 \<le> length (m_pChildList cur)
        then (AttrGroupEnd e (s\<lparr>aAttrStack := set_children (m_pChildList cur @ added) cur # rest,
                                  pInsPos := p\<rparr>))
               \<lparr>aAttrStack :=
                  reopened e (set_children (m_pChildList cur @ added) cur) p #
                  aAttrStack (AttrGroupEnd e
                    (s\<lparr>aAttrStack := set_children (m_pChildList cur @ added) cur # rest,
                       pInsPos := p\<rparr>)),
                bNewGroup := False\<rparr>
        else s\<lparr>aAttrStack := set_children (m_pChildList cur @ added) cur # rest,
               pInsPos := p, bNewGroup := False\<rparr>)"
    by blast
  have props: "length added \<le> 2 \<and>
     (\<forall>r\<in>set (take 1 added). \<forall>k. \<not> redundant cur r k) \<and>
     (\<forall>r\<in>set (drop 1 added). \<forall>k. redundant cur r k \<longrightarrow> k \<in> fst ` set (GetRTFDefaults e))"
  proof (cases "resolve e s pOld (Some cur)")
    case (Dropped q) with added show ?thesis by simp
  next
    case (Split r r' q)
    with added resolve_first [OF disjI2 [OF Split]] resolve_second [OF Split]
    show ?thesis by auto
  next
    case (Single r b q)
    with added resolve_first [OF disjI1 [OF Single]] show ?thesis by auto
  qed
  from eq props show ?thesis by blast
qed

lemma nested_closed:
  "AttrGroupEnd unit_env nested =
     nested\<lparr>aAttrStack := [StackType [(7, 1)] 0 0 0 0 0 [StackType [(8, 2)] 0 0 0 3 0 []]],
       bNewGroup := False\<rparr>"
  by (subst AttrGroupEnd.simps)
     (simp add: nested_def unit_env_def resolve_def no_area_def Count_def parent_diff_def
        diff_items_def GetItemState_def cursor_back_def starts_before_def set_end_def
        set_attrs_def Add_def set_children_def Let_def)

theorem inheritance_redundancy_witness:
  "aAttrStack nested = [StackType [(7, 1), (8, 2)] 0 0 0 0 0 [], StackType [(7, 1)] 0 0 0 0 0 []] \<and>
   AttrGroupEnd unit_env nested =
     nested\<lparr>aAttrStack := [StackType [(7, 1)] 0 0 0 0 0 [StackType [(8, 2)] 0 0 0 3 0 []]],
       bNewGroup := False\<rparr> \<and>
   \<not> redundant (StackType [(7, 1)] 0 0 0 0 0 []) (StackType [(8, 2)] 0 0 0 3 0 []) 7"
proof -
  have stk: "aAttrStack nested =
      StackType [(7, 1), (8, 2)] 0 0 0 0 0 [] # StackType [(7, 1)] 0 0 0 0 0 [] # []"
    by (simp add: nested_def)
  have red: "\<not> redundant (StackType [(7, 1)] 0 0 0 0 0 []) (StackType [(8, 2)] 0 0 0 3 0 []) 7"
    by (simp add: redundant_def GetItemState_def)
  from inheritance_redundancy [OF stk, of unit_env] stk red show ?thesis
    by (simp add: nested_closed)
qed

text \<open>
  In a parser with RTF defaults the later piece of a split holds the script-space item
  with the value the parent holds: the split puts the default back after the comparison
  with the parent.
\<close>

theorem inheritance_redundancy_counterexample:
  "aAttrStack (AttrGroupEnd rtf_env seeded) =
     [StackType [(9, 0)] 0 0 0 0 0
        [StackType [(3, 20), (2, 11), (1, 10)] 0 0 0 5 0 [],
         StackType [(9, 0), (3, 20)] 1 0 1 3 0 []]] \<and>
   GetItemState [(9, 0), (3, 20)] 9 = Some 0 \<and> GetItemState [(9, 0)] 9 = Some 0"
  by (simp add: AttrGroupEnd.simps seeded_def rtf_env_def para_env_def resolve_def no_area_def
      Count_def parent_diff_def diff_items_def cursor_back_def starts_before_def split_para_def
      copy_stack_type_def Put_def PutItem_def GetItemState_def ClearItem_def GetRTFDefaults_def
      SetRTFDefaults_def set_end_def set_attrs_def Add_def set_children_def Let_def)

section \<open>Properties of the text case\<close>

lemma flush_loop_all:
  "flush_loop e (length l) l ev = ([], ev @ concat (map (SetAttrSet e) (rev l)))"
proof (induction l arbitrary: ev rule: rev_induct)
  case Nil show ?case by simp
next
  case (snoc x xs)
  show ?case by (simp add: snoc.IH nth_append)
qed

text \<open>
  C9. A text token, and each token that stands for a single character, first inserts
  the text at the cursor and then applies the records of \<open>m_AttrSetList\<close> from the
  last added to the first; afterwards \<open>m_AttrSetList\<close> is empty.
\<close>

theorem text_then_flush:
  "NextToken e s (RTF_TEXTTOKEN aToken) =
     Some (s\<lparr>pInsPos := InsertText e aToken (pInsPos s), m_AttrSetList := [],
             applied := applied s @ [Inserted aToken] @
                        concat (map (SetAttrSet e) (rev (m_AttrSetList s)))\<rparr>) \<and>
   (single_char t = Some cCh \<longrightarrow>
      NextToken e s t =
        Some (s\<lparr>pInsPos := InsertText e [cCh] (pInsPos s), m_AttrSetList := [],
                applied := applied s @ [Inserted [cCh]] @
                           concat (map (SetAttrSet e) (rev (m_AttrSetList s)))\<rparr>))"
  by (cases t) (simp_all add: text_case_def flush_loop_all single_char_def)

theorem text_then_flush_witness:
  "single_char RTF_TAB = Some 9 \<and>
   NextToken unit_env pending RTF_TAB =
     Some (pending\<lparr>pInsPos := (0, 5), m_AttrSetList := [],
        applied := [Inserted [9], SetAttrInDoc (StackType [(8, 2)] 0 2 0 4 0 []),
                    SetAttrInDoc (StackType [(7, 1)] 0 0 0 2 0 [])]\<rparr>)"
  using text_then_flush [of unit_env pending "[]" RTF_TAB 9]
  by (simp add: single_char_def pending_def unit_env_def SetAttrSet.simps Count_def)

section \<open>Properties of the range compressor\<close>

lemma Compress_frame [simp]:
  "pSttNd (Compress e t) = pSttNd t" "nSttCnt (Compress e t) = nSttCnt t"
  "pEndNd (Compress e t) = pEndNd t" "nEndCnt (Compress e t) = nEndCnt t"
  "nStyleNo (Compress e t) = nStyleNo t"
  by (cases t; cases "m_pChildList t"; simp split: prod.splits option.splits)+

lemma gap_Compress [simp]: "gap e n c (Compress e' t) = gap e n c t"
  by (simp add: gap_def)

lemma Get_narrow:
  "GetItemState (narrow child mrg) k =
     (if GetItemState child k = GetItemState mrg k then GetItemState mrg k else None)"
  unfolding narrow_def GetItemState_def
  by (simp add: map_of_filter_key [where P = "\<lambda>k. map_of child k = map_of mrg k"])

lemma Get_Differentiate:
  "GetItemState (Differentiate m s) k = (if GetItemState m k = None then GetItemState s k else None)"
  unfolding Differentiate_def GetItemState_def
  by (simp add: map_of_filter_key [where P = "\<lambda>k. map_of m k = None"])

lemma Count_pos: "GetItemState s k = Some v \<Longrightarrow> Count s \<noteq> 0"
  by (auto simp: Count_0)

lemma Compress_loop_shared:
  assumes "contiguous e ln lc cs" and "GetItemState mrg A = Some v"
    and "\<forall>c\<in>set cs. GetItemState (aAttrSet (Compress e c)) A = Some v"
  shows "\<exists>mrg'. GetItemState mrg' A = Some v \<and>
     Compress_loop e ln lc mrg cs =
       (map (Compress e) cs,
        Some (mrg', if cs = [] then ln else pEndNd (last cs), if cs = [] then lc else nEndCnt (last cs)))"
  using assms
proof (induction cs arbitrary: ln lc mrg)
  case Nil then show ?case by simp
next
  case (Cons c cs)
  let ?p = "Compress e c"
  let ?m = "narrow (aAttrSet ?p) mrg"
  have g: "\<not> gap e ln lc ?p" using Cons.prems(1) by simp
  have m: "GetItemState ?m A = Some v" using Cons.prems(2,3) by (simp add: Get_narrow)
  then have nz: "Count ?m \<noteq> 0" by (rule Count_pos)
  from Cons.IH [of "pEndNd ?p" "nEndCnt ?p" ?m] Cons.prems m
  obtain mrg' where r: "GetItemState mrg' A = Some v"
    "Compress_loop e (pEndNd ?p) (nEndCnt ?p) ?m cs =
       (map (Compress e) cs,
        Some (mrg', if cs = [] then pEndNd ?p else pEndNd (last cs),
              if cs = [] then nEndCnt ?p else nEndCnt (last cs)))"
    by auto
  show ?case
    using g nz r by (auto simp: compress_child Let_def)
qed

lemma subtract_none:
  "GetItemState mrg A = Some v \<Longrightarrow> c \<in> set (subtract mrg cs) \<Longrightarrow> GetItemState (aAttrSet c) A = None"
  by (auto simp: subtract_def Get_Differentiate)

text \<open>
  C4, as the code has it. When the first child starts at the start of the record, the
  children form a chain without gaps, the last child ends at the end of the record, the
  first child holds the item \<open>A\<close> with value \<open>v\<close> and every later child holds it
  after its own compression, then after \<open>Compress\<close> the record holds \<open>A\<close> with
  value \<open>v\<close> and no child holds \<open>A\<close>.
\<close>

theorem compression_coverage:
  assumes "pSttNd c0 = sn" "nSttCnt c0 = sc"
    and "contiguous e (pEndNd c0) (nEndCnt c0) cs"
    and "pEndNd (last (c0 # cs)) = en" "nEndCnt (last (c0 # cs)) = ec"
    and "GetItemState (aAttrSet c0) A = Some v"
    and "\<forall>c\<in>set cs. GetItemState (aAttrSet (Compress e c)) A = Some v"
  shows "GetItemState (aAttrSet (Compress e (StackType a sn sc en ec st (c0 # cs)))) A = Some v \<and>
         (\<forall>c\<in>set (m_pChildList (Compress e (StackType a sn sc en ec st (c0 # cs)))).
            GetItemState (aAttrSet c) A = None)"
proof -
  obtain mrg' where r: "GetItemState mrg' A = Some v"
    "Compress_loop e (pEndNd c0) (nEndCnt c0) (aAttrSet c0) cs =
       (map (Compress e) cs,
        Some (mrg', if cs = [] then pEndNd c0 else pEndNd (last cs),
              if cs = [] then nEndCnt c0 else nEndCnt (last cs)))"
    using Compress_loop_shared [OF assms(3) assms(6) assms(7)] by blast
  have nz: "Count (aAttrSet c0) \<noteq> 0" using assms(6) by (rule Count_pos)
  have "Compress e (StackType a sn sc en ec st (c0 # cs)) =
      StackType (Put mrg' a) sn sc en ec st (subtract mrg' (c0 # map (Compress e) cs))"
    using assms(1,2,4,5) nz r(2) by (auto split: if_splits)
  then show ?thesis
    using r(1) by (auto simp: Get_Put dest: subtract_none)
qed

theorem compression_coverage_witness:
  "Compress unit_env leaf_cover = StackType [(7, 1)] 0 0 0 2 0 [StackType [(8, 2)] 0 0 0 1 0 []] \<and>
   GetItemState [(7, 1)] 7 = Some 1 \<and> GetItemState [(8, 2)] 7 = None"
  using compression_coverage [of "StackType [(7, 1), (8, 2)] 0 0 0 1 0 []" 0 0 unit_env
      "[StackType [(7, 1)] 0 1 0 2 0 []]" 0 2 7 1 "[]" 0]
  by (simp add: leaf_cover_def unit_env_def Count_def gap_def narrow_def GetItemState_def
      Put_def PutItem_def subtract_def Differentiate_def droppable_def set_attrs_def Let_def)

text \<open>
  The children of this record cover it without a gap and both hold the item 7 with
  value 1, yet \<open>Compress\<close> leaves the record without the item 7: compressing
  the second child first gave it the value 2 of its own child.
\<close>

theorem compression_coverage_counterexample:
  "list_all (\<lambda>c. GetItemState (aAttrSet c) 7 = Some 1) (m_pChildList pair_cover) \<and>
   contiguous unit_env 0 1 (tl (m_pChildList pair_cover)) \<and>
   Compress unit_env pair_cover =
     StackType [] 0 0 0 2 0 [StackType [(7, 1)] 0 0 0 1 0 [], StackType [(7, 2)] 0 1 0 2 0 []] \<and>
   GetItemState (aAttrSet (Compress unit_env pair_cover)) 7 = None"
  by (simp add: pair_cover_def unit_env_def Count_def gap_def narrow_def GetItemState_def
      Put_def PutItem_def subtract_def Differentiate_def droppable_def set_attrs_def)

section \<open>Compressing twice\<close>

lemma Compress_rest_map: "Compress_rest e cs = map (Compress e) cs"
  by (induction cs) (simp_all add: compress_child)

lemma Compress_loop_Cons:
  "Compress_loop e ln lc m (c # cs) =
     (if gap e ln lc c then (Compress e c # map (Compress e) cs, None)
      else if Count (narrow (aAttrSet (Compress e c)) m) = 0 then (Compress e c # cs, None)
      else (Compress e c #
              fst (Compress_loop e (pEndNd c) (nEndCnt c) (narrow (aAttrSet (Compress e c)) m) cs),
            snd (Compress_loop e (pEndNd c) (nEndCnt c) (narrow (aAttrSet (Compress e c)) m) cs)))"
  by (simp add: compress_child Compress_rest_map Let_def case_prod_beta)

lemma Compress_loop_stable:
  "\<forall>c\<in>set cs. Compress e c = c \<Longrightarrow> fst (Compress_loop e ln lc m cs) = cs"
proof (induction cs arbitrary: ln lc m)
  case Nil show ?case by simp
next
  case (Cons c cs)
  then have "map (Compress e) cs = cs" by (simp add: map_idI)
  with Cons show ?case
    by (simp only: Compress_loop_Cons) simp
qed

lemma Compress_loop_again:
  "\<forall>c\<in>set cs. Compress e (Compress e c) = Compress e c \<Longrightarrow>
   Compress_loop e ln lc m (fst (Compress_loop e ln lc m cs)) = Compress_loop e ln lc m cs"
proof (induction cs arbitrary: ln lc m)
  case Nil show ?case by simp
next
  case (Cons c cs)
  have c: "Compress e (Compress e c) = Compress e c" using Cons.prems by simp
  have m: "map (Compress e) (map (Compress e) cs) = map (Compress e) cs"
    using Cons.prems by simp
  have ih: "Compress_loop e ln' lc' m' (fst (Compress_loop e ln' lc' m' cs)) =
      Compress_loop e ln' lc' m' cs" for ln' lc' m'
    using Cons.IH Cons.prems by simp
  show ?case
    by (simp only: Compress_loop_Cons Compress_frame gap_Compress c m ih fst_conv snd_conv
        split: if_splits) (simp add: c m ih)
qed


lemma last_end_Cons: "last_end p (c # cs) = last_end (pEndNd c, nEndCnt c) cs"
  by (simp add: last_end_def)

lemma Compress_loop_Some:
  "Compress_loop e ln lc m cs = (cs', Some (m2, ln2, lc2)) \<Longrightarrow>
   cs' = map (Compress e) cs \<and> contiguous e ln lc cs \<and> (ln2, lc2) = last_end (ln, lc) cs \<and>
   (Count m \<noteq> 0 \<longrightarrow> Count m2 \<noteq> 0) \<and>
   (\<forall>k. GetItemState m2 k =
      (if \<forall>p\<in>set cs'. GetItemState (aAttrSet p) k = GetItemState m k
       then GetItemState m k else None))"
proof (induction cs arbitrary: ln lc m cs')
  case Nil then show ?case by (simp add: last_end_def)
next
  case (Cons c cs)
  let ?p = "Compress e c"
  let ?m = "narrow (aAttrSet ?p) m"
  let ?L = "Compress_loop e (pEndNd c) (nEndCnt c) ?m cs"
  from Cons.prems have g: "\<not> gap e ln lc c" and nz: "Count ?m \<noteq> 0"
    and hd: "cs' = ?p # fst ?L" and sn: "snd ?L = Some (m2, ln2, lc2)"
    by (auto simp: Compress_loop_Cons simp del: Compress_loop.simps split: if_splits)
  have r: "?L = (fst ?L, Some (m2, ln2, lc2))" using sn by (simp add: prod_eq_iff)
  from Cons.IH [OF r] have ih:
    "fst ?L = map (Compress e) cs" "contiguous e (pEndNd c) (nEndCnt c) cs"
    "(ln2, lc2) = last_end (pEndNd c, nEndCnt c) cs" "Count m2 \<noteq> 0"
    "\<And>k. GetItemState m2 k =
      (if \<forall>p\<in>set (fst ?L). GetItemState (aAttrSet p) k = GetItemState ?m k
       then GetItemState ?m k else None)"
    using nz by auto
  have k: "GetItemState m2 k =
      (if \<forall>p\<in>set cs'. GetItemState (aAttrSet p) k = GetItemState m k
       then GetItemState m k else None)" for k
    by (subst hd) (auto simp: ih(5) Get_narrow)
  show ?case
    using g ih(1-4) hd k by (simp add: last_end_Cons)
qed

lemma le_start:
  "\<not> gap e ln lc c \<Longrightarrow> (ln, lc) \<le> (pSttNd c, nSttCnt c)"
  by (auto simp: gap_def split: if_splits)


lemma chain_le:
  "contiguous e ln lc cs \<Longrightarrow> \<forall>c\<in>set cs. spans c \<Longrightarrow> (ln, lc) \<le> last_end (ln, lc) cs"
proof (induction cs arbitrary: ln lc)
  case Nil show ?case by (simp add: last_end_def)
next
  case (Cons c cs)
  have "(ln, lc) \<le> (pSttNd c, nSttCnt c)"
    by (rule le_start [of e]) (use Cons.prems(1) in simp)
  also have "\<dots> < (pEndNd c, nEndCnt c)" using Cons.prems(2) by (simp add: spans_def)
  also have "\<dots> \<le> last_end (pEndNd c, nEndCnt c) cs" using Cons by simp
  finally show ?case by (simp add: last_end_Cons)
qed

lemma chain_less:
  "contiguous e ln lc cs \<Longrightarrow> \<forall>c\<in>set cs. spans c \<Longrightarrow> cs \<noteq> [] \<Longrightarrow>
   (ln, lc) < last_end (ln, lc) cs"
proof (cases cs)
  case Nil then show "cs \<noteq> [] \<Longrightarrow> ?thesis" by simp
next
  case (Cons c cs')
  assume a: "contiguous e ln lc cs" "\<forall>c\<in>set cs. spans c"
  have "(ln, lc) \<le> (pSttNd c, nSttCnt c)"
    by (rule le_start [of e]) (use a(1) Cons in simp)
  also have "\<dots> < (pEndNd c, nEndCnt c)" using a(2) Cons by (simp add: spans_def)
  also have "\<dots> \<le> last_end (pEndNd c, nEndCnt c) cs'"
    using a Cons by (intro chain_le) auto
  finally show ?thesis using Cons by (simp add: last_end_Cons)
qed

lemma contiguous_append:
  "contiguous e ln lc (xs @ ys) =
     (contiguous e ln lc xs \<and>
      contiguous e (fst (last_end (ln, lc) xs)) (snd (last_end (ln, lc) xs)) ys)"
  by (induction xs arbitrary: ln lc) (simp_all add: last_end_def)

lemma skip_gap:
  assumes "one_end e" "contiguous e ln lc (ys @ [z])" "ys \<noteq> []" "\<forall>c\<in>set ys. spans c"
  shows "gap e ln lc z"
proof (rule ccontr)
  assume ng: "\<not> gap e ln lc z"
  obtain qn qc where q: "last_end (ln, lc) ys = (qn, qc)" by (cases "last_end (ln, lc) ys")
  from assms(2) have ch: "contiguous e ln lc ys" and nz: "\<not> gap e qn qc z"
    by (simp_all add: contiguous_append q)
  have less: "(ln, lc) < (qn, qc)" using chain_less [OF ch assms(4) assms(3)] q by simp
  show False
  proof (cases "nSttCnt z = 0")
    case True
    with ng nz have "qn = ln" "IsEndPara e ln lc" "IsEndPara e qn qc" by (auto simp: gap_def)
    with assms(1) have "qc = lc" by (auto simp: one_end_def)
    with \<open>qn = ln\<close> less show False by simp
  next
    case False
    with ng nz have "qn = ln" "qc = lc" by (auto simp: gap_def)
    with less show False by simp
  qed
qed

lemma kept_chain:
  assumes "one_end e"
  shows "contiguous e ln lc xs \<Longrightarrow> \<forall>c\<in>set xs. spans c \<Longrightarrow>
     contiguous e ln lc (filter K xs) \<Longrightarrow>
     last_end (ln, lc) (filter K xs) = last_end (ln, lc) xs \<Longrightarrow> filter K xs = xs"
proof (induction xs arbitrary: ln lc)
  case Nil show ?case by simp
next
  case (Cons x xs)
  show ?case
  proof (cases "K x")
    case True
    with Cons.prems have "filter K xs = xs"
      by (intro Cons.IH) (simp_all add: last_end_Cons)
    with True show ?thesis by simp
  next
    case False
    have less: "(ln, lc) < last_end (ln, lc) (x # xs)"
      using Cons.prems(1,2) by (intro chain_less) simp_all
    show ?thesis
    proof (cases "filter K xs")
      case Nil
      with False Cons.prems(4) less show ?thesis by (simp add: last_end_def)
    next
      case (Cons y ys)
      then obtain pre post where xs: "xs = pre @ y # post"
        by (auto simp: filter_eq_Cons_iff)
      have ng: "\<not> gap e ln lc y" using Cons.prems(3) False Cons by simp
      have "contiguous e ln lc ((x # pre) @ [y])"
        using Cons.prems(1) xs contiguous_append [of e ln lc "(x # pre) @ [y]" post] by simp
      from skip_gap [OF assms this] Cons.prems(2) xs have "gap e ln lc y" by simp
      with ng show ?thesis by simp
    qed
  qed
qed


lemma same_range_Compress: "same_range (Compress e)"
  by (simp add: same_range_def)

lemma same_range_set_attrs: "same_range (\<lambda>c. set_attrs (h c) c)"
  by (simp add: same_range_def set_attrs_def)

lemma gap_same: "same_range g \<Longrightarrow> gap e ln lc (g c) = gap e ln lc c"
  by (simp add: same_range_def gap_def)

lemma contiguous_map: "same_range g \<Longrightarrow> contiguous e ln lc (map g cs) = contiguous e ln lc cs"
proof (induction cs arbitrary: ln lc)
  case Nil show ?case by simp
next
  case (Cons c cs)
  have "pEndNd (g c) = pEndNd c" "nEndCnt (g c) = nEndCnt c"
    using Cons.prems by (simp_all add: same_range_def)
  with Cons show ?case by (simp add: gap_same)
qed

lemma last_end_map: "same_range g \<Longrightarrow> last_end p (map g cs) = last_end p cs"
  by (cases cs rule: rev_cases) (simp_all add: last_end_def same_range_def)

lemma spans_same: "same_range g \<Longrightarrow> spans (g c) = spans c"
  by (simp add: same_range_def spans_def)

lemma Count_ex: "Count m \<noteq> 0 \<Longrightarrow> \<exists>k v. GetItemState m k = Some v"
  by (cases m) (auto simp: Count_def GetItemState_def)

lemma merged_first_changes:
  assumes "Compress_loop e ln lc (aAttrSet c0) cs = (cs', Some (mrg, ln2, lc2))"
    and "Count (aAttrSet c0) \<noteq> 0"
  shows "c0 \<notin> set (subtract mrg xs)"
proof
  assume in_sub: "c0 \<in> set (subtract mrg xs)"
  from Compress_loop_Some [OF assms(1)] assms(2) have nz: "Count mrg \<noteq> 0"
    and mk: "\<And>k. GetItemState mrg k =
      (if \<forall>p\<in>set cs'. GetItemState (aAttrSet p) k = GetItemState (aAttrSet c0) k
       then GetItemState (aAttrSet c0) k else None)"
    by auto
  from Count_ex [OF nz] obtain k v where kv: "GetItemState mrg k = Some v" by blast
  with mk [of k] have "GetItemState (aAttrSet c0) k = Some v" by (auto split: if_splits)
  moreover have "GetItemState (aAttrSet c0) k = None" using subtract_none [OF kv in_sub] .
  ultimately show False by simp
qed

lemma stable_set_attrs:
  assumes "Compress e t = t"
  shows "Compress e (set_attrs X t) = set_attrs X t"
proof (cases t)
  case (StackType a sn sc en ec st cs)
  show ?thesis
  proof (cases cs)
    case Nil with StackType show ?thesis by (simp add: set_attrs_def)
  next
    case (Cons c0 cs1)
    show ?thesis
    proof (cases "Count (aAttrSet c0) = 0 \<or> sn \<noteq> pSttNd c0 \<or> sc \<noteq> nSttCnt c0")
      case True with StackType Cons show ?thesis by (simp add: set_attrs_def)
    next
      case False
      obtain cs' r where L: "Compress_loop e (pEndNd c0) (nEndCnt c0) (aAttrSet c0) cs1 = (cs', r)"
        by (cases "Compress_loop e (pEndNd c0) (nEndCnt c0) (aAttrSet c0) cs1")
      show ?thesis
      proof (cases "\<exists>mrg. r = Some (mrg, en, ec)")
        case True
        then obtain mrg where r: "r = Some (mrg, en, ec)" by blast
        from assms StackType Cons False L r
        have "subtract mrg (c0 # cs') = c0 # cs1" by simp
        then have "c0 \<in> set (subtract mrg (c0 # cs'))" by simp
        moreover have "c0 \<notin> set (subtract mrg (c0 # cs'))"
          using merged_first_changes [OF L [unfolded r]] False by simp
        ultimately show ?thesis by simp
      next
        case nomerge: False
        from assms StackType Cons False L nomerge have "cs' = cs1"
          by (auto split: option.splits if_splits)
        with StackType Cons False L nomerge show ?thesis
          by (auto simp: set_attrs_def split: option.splits)
      qed
    qed
  qed
qed

lemma proper_spans: "proper t \<Longrightarrow> spans t"
  by (cases t) (simp add: spans_def)

lemma proper_children: "proper t \<Longrightarrow> c \<in> set (m_pChildList t) \<Longrightarrow> proper c"
  by (cases t) (simp add: list_all_iff)

lemma set_tl_subset: "set (tl ys) \<subseteq> set ys"
  by (cases ys) auto

lemma tl_filter_subset: "set (tl (filter K (x # xs))) \<subseteq> set (filter K xs)"
  using set_tl_subset [of "filter K xs"] by (cases "K x") simp_all

lemma same_range_comp: "same_range f \<Longrightarrow> same_range g \<Longrightarrow> same_range (f \<circ> g)"
  by (simp add: same_range_def)

lemma late_start:
  assumes "contiguous e ln lc xs" "\<forall>c\<in>set xs. spans c" "d \<in> set xs"
  shows "(ln, lc) \<le> (pSttNd d, nSttCnt d)"
proof -
  from assms(3) obtain pre post where xs: "xs = pre @ d # post" by (auto dest: split_list)
  obtain qn qc where q: "last_end (ln, lc) pre = (qn, qc)" by (cases "last_end (ln, lc) pre")
  from assms(1) xs have ch: "contiguous e ln lc pre" and ng: "\<not> gap e qn qc d"
    by (simp_all add: contiguous_append q)
  have "(ln, lc) \<le> last_end (ln, lc) pre" using ch assms(2) xs by (intro chain_le) auto
  also have "\<dots> \<le> (pSttNd d, nSttCnt d)" unfolding q by (rule le_start [OF ng])
  finally show ?thesis .
qed

lemma merged_stable:
  assumes oe: "one_end e"
    and H: "\<forall>c\<in>set cs1. Compress e (Compress e c) = Compress e c"
    and sp: "spans c0" "\<forall>c\<in>set cs1. spans c"
    and first: "Count (aAttrSet c0) \<noteq> 0" "sn = pSttNd c0" "sc = nSttCnt c0"
    and L: "Compress_loop e (pEndNd c0) (nEndCnt c0) (aAttrSet c0) cs1 = (cs', Some (mrg, en, ec))"
  shows "Compress e (StackType b sn sc en ec st (subtract mrg (c0 # cs'))) =
         StackType b sn sc en ec st (subtract mrg (c0 # cs'))"
proof -
  define f where "f = (\<lambda>c. set_attrs (Differentiate mrg (aAttrSet c)) c)"
  define K where "K = (\<lambda>c. \<not> droppable c)"
  have sr: "same_range f" unfolding f_def by (rule same_range_set_attrs)
  have D: "subtract mrg (c0 # cs') = filter K (f c0 # map f cs')"
    by (simp add: subtract_def f_def K_def)
  from Compress_loop_Some [OF L] first(1)
  have cs': "cs' = map (Compress e) cs1" and ch: "contiguous e (pEndNd c0) (nEndCnt c0) cs1"
    and le: "(en, ec) = last_end (pEndNd c0, nEndCnt c0) cs1"
    and mk: "\<And>k. GetItemState mrg k =
      (if \<forall>p\<in>set cs'. GetItemState (aAttrSet p) k = GetItemState (aAttrSet c0) k
       then GetItemState (aAttrSet c0) k else None)"
    by auto
  let ?xs = "map f cs'"
  have ch_xs: "contiguous e (pEndNd c0) (nEndCnt c0) ?xs"
    using ch by (simp add: cs' contiguous_map same_range_comp sr same_range_Compress)
  have le_xs: "last_end (pEndNd c0, nEndCnt c0) ?xs = (en, ec)"
    using le by (simp add: cs' last_end_map same_range_comp sr same_range_Compress)
  have sp_xs: "\<forall>c\<in>set ?xs. spans c"
    using sp(2) by (simp add: cs' spans_same sr same_range_Compress)
  have st_xs: "\<forall>d\<in>set ?xs. Compress e d = d"
    using H by (auto simp: cs' f_def intro: stable_set_attrs)
  show ?thesis
  proof (cases "subtract mrg (c0 # cs')")
    case Nil then show ?thesis by simp
  next
    case (Cons d0 ds)
    have ds_sub: "set ds \<subseteq> set ?xs"
      using tl_filter_subset [of K "f c0" ?xs] Cons D by auto
    then have st_ds: "\<forall>d\<in>set ds. Compress e d = d" using st_xs by blast
    show ?thesis
    proof (cases "Count (aAttrSet d0) = 0 \<or> sn \<noteq> pSttNd d0 \<or> sc \<noteq> nSttCnt d0")
      case True with Cons show ?thesis by simp
    next
      case chk: False
      obtain r2 where L2: "Compress_loop e (pEndNd d0) (nEndCnt d0) (aAttrSet d0) ds = (ds, r2)"
        using Compress_loop_stable [OF st_ds, of "pEndNd d0" "nEndCnt d0" "aAttrSet d0"]
        by (cases "Compress_loop e (pEndNd d0) (nEndCnt d0) (aAttrSet d0) ds") auto
      show ?thesis
      proof (cases "\<exists>m2. r2 = Some (m2, en, ec)")
        case False
        with Cons chk L2 show ?thesis by (auto split: option.splits)
      next
        case True
        then obtain m2 where r2: "r2 = Some (m2, en, ec)" by blast
        from Compress_loop_Some [OF L2 [unfolded r2]] chk
        have ch2: "contiguous e (pEndNd d0) (nEndCnt d0) ds"
          and le2: "(en, ec) = last_end (pEndNd d0, nEndCnt d0) ds"
          and nz2: "Count m2 \<noteq> 0"
          and mk2: "\<And>k. GetItemState m2 k =
            (if \<forall>p\<in>set ds. GetItemState (aAttrSet p) k = GetItemState (aAttrSet d0) k
             then GetItemState (aAttrSet d0) k else None)"
          by auto
        have keep0: "K (f c0)"
        proof (rule ccontr)
          assume "\<not> K (f c0)"
          with D Cons have "filter K ?xs = d0 # ds" by simp
          then have "d0 \<in> set (filter K ?xs)" by simp
          then have "d0 \<in> set ?xs" by simp
          from late_start [OF ch_xs sp_xs this]
          have "(pEndNd c0, nEndCnt c0) \<le> (pSttNd d0, nSttCnt d0)" .
          moreover have "(pSttNd c0, nSttCnt c0) < (pEndNd c0, nEndCnt c0)"
            using sp(1) by (simp add: spans_def)
          ultimately show False using chk first(2,3) by auto
        qed
        with D Cons have d0: "d0 = f c0" and ds: "ds = filter K ?xs" by simp_all
        have ends: "pEndNd d0 = pEndNd c0" "nEndCnt d0 = nEndCnt c0"
          using sr by (simp_all add: d0 same_range_def)
        have ch2': "contiguous e (pEndNd c0) (nEndCnt c0) (filter K ?xs)"
          using ch2 by (simp only: ds ends)
        have "last_end (pEndNd c0, nEndCnt c0) ds = last_end (pEndNd c0, nEndCnt c0) ?xs"
          using le2 le_xs by (simp only: ends)
        then have le2': "last_end (pEndNd c0, nEndCnt c0) (filter K ?xs) =
            last_end (pEndNd c0, nEndCnt c0) ?xs"
          by (simp only: ds)
        have all: "filter K ?xs = ?xs"
          by (rule kept_chain [OF oe ch_xs sp_xs ch2' le2'])
        from Count_ex [OF nz2] obtain k v where kv: "GetItemState m2 k = Some v" by blast
        with mk2 [of k] have a0: "GetItemState (aAttrSet d0) k = Some v"
          and ad: "\<forall>p\<in>set ds. GetItemState (aAttrSet p) k = Some v"
          by (auto split: if_splits)
        from a0 have none: "GetItemState mrg k = None"
          and c0k: "GetItemState (aAttrSet c0) k = Some v"
          by (auto simp: d0 f_def Get_Differentiate split: if_splits)
        have "GetItemState (aAttrSet p) k = Some v" if "p \<in> set cs'" for p
        proof -
          from that have "f p \<in> set ds" by (simp add: ds all)
          with ad have "GetItemState (aAttrSet (f p)) k = Some v" by blast
          then show ?thesis by (auto simp: f_def Get_Differentiate split: if_splits)
        qed
        with mk [of k] c0k have "GetItemState mrg k = Some v" by simp
        with none show ?thesis by simp
      qed
    qed
  qed
qed


text \<open>
  C5, as the code has it. In a document in which a paragraph has one end, for a tree all
  of whose records end strictly after they start, compressing the compressed tree
  changes nothing: the ranges, attribute collections, style numbers and children of
  every record stay as the first run left them.
\<close>

theorem compression_idempotent:
  assumes "one_end e" and "proper t"
  shows "Compress e (Compress e t) = Compress e t"
  using assms(2)
proof (induction t)
  case (StackType a sn sc en ec st cs)
  have H: "\<forall>c\<in>set cs. Compress e (Compress e c) = Compress e c"
    using StackType by (auto simp: list_all_iff)
  have sp: "\<forall>c\<in>set cs. spans c"
    using StackType.prems by (auto simp: list_all_iff intro: proper_spans)
  show ?case
  proof (cases cs)
    case Nil then show ?thesis by simp
  next
    case (Cons c0 cs1)
    show ?thesis
    proof (cases "Count (aAttrSet c0) = 0 \<or> sn \<noteq> pSttNd c0 \<or> sc \<noteq> nSttCnt c0")
      case True with Cons show ?thesis by simp
    next
      case chk: False
      obtain cs' r where L: "Compress_loop e (pEndNd c0) (nEndCnt c0) (aAttrSet c0) cs1 = (cs', r)"
        by (cases "Compress_loop e (pEndNd c0) (nEndCnt c0) (aAttrSet c0) cs1")
      have again: "Compress_loop e (pEndNd c0) (nEndCnt c0) (aAttrSet c0) cs' = (cs', r)"
        using Compress_loop_again [of cs1 e "pEndNd c0" "nEndCnt c0" "aAttrSet c0"] H Cons L
        by simp
      show ?thesis
      proof (cases "\<exists>mrg. r = Some (mrg, en, ec)")
        case False
        with Cons chk L again show ?thesis by (auto split: option.splits)
      next
        case True
        then obtain mrg where r: "r = Some (mrg, en, ec)" by blast
        have "Compress e (StackType (Put mrg a) sn sc en ec st (subtract mrg (c0 # cs'))) =
              StackType (Put mrg a) sn sc en ec st (subtract mrg (c0 # cs'))"
          using H sp Cons chk L [unfolded r]
          by (intro merged_stable [OF assms(1)]) simp_all
        with Cons chk L r show ?thesis by simp
      qed
    qed
  qed
qed

theorem compression_idempotent_witness:
  "one_end para_env \<and> proper leaf_cover \<and>
   Compress para_env leaf_cover =
     StackType [(7, 1)] 0 0 0 2 0 [StackType [(8, 2)] 0 0 0 1 0 []] \<and>
   Compress para_env (Compress para_env leaf_cover) =
     StackType [(7, 1)] 0 0 0 2 0 [StackType [(8, 2)] 0 0 0 1 0 []]"
proof -
  have a: "one_end para_env" by (simp add: one_end_def para_env_def)
  have b: "proper leaf_cover" by (simp add: leaf_cover_def)
  have c: "Compress para_env leaf_cover =
     StackType [(7, 1)] 0 0 0 2 0 [StackType [(8, 2)] 0 0 0 1 0 []]"
    by (simp add: leaf_cover_def para_env_def Count_def gap_def narrow_def GetItemState_def
      Put_def PutItem_def subtract_def Differentiate_def droppable_def set_attrs_def Let_def)
  from compression_idempotent [OF a b] a b c show ?thesis by simp
qed

text \<open>
  With a child that starts where it ends the second run differs from the first: the
  first run lifts the item 7 and drops the empty child, after which the two remaining
  children are a chain of their own and the second run lifts the item 8 as well.
\<close>

theorem compression_idempotent_counterexample:
  "Compress unit_env thin_child =
     StackType [(7, 1)] 0 0 0 2 0
       [StackType [(8, 2)] 0 0 0 1 0 [], StackType [(8, 2)] 0 1 0 2 0 []] \<and>
   Compress unit_env (Compress unit_env thin_child) = StackType [(8, 2), (7, 1)] 0 0 0 2 0 [] \<and>
   Compress unit_env (Compress unit_env thin_child) \<noteq> Compress unit_env thin_child"
  by (simp add: thin_child_def unit_env_def Count_def gap_def narrow_def GetItemState_def
      Put_def PutItem_def subtract_def Differentiate_def droppable_def set_attrs_def Let_def)

text \<open>
  The single end of a paragraph is needed as well: where two offsets of one paragraph
  count as its end, a tree of records of non-empty range is compressed further by the
  second run.
\<close>

lemma compression_two_ends:
  "proper two_ends \<and> \<not> one_end all_ends \<and>
   Compress all_ends two_ends =
     StackType [(7, 1)] 0 0 1 1 0
       [StackType [(8, 2)] 0 0 0 1 0 [], StackType [(8, 2)] 1 0 1 1 0 []] \<and>
   Compress all_ends (Compress all_ends two_ends) = StackType [(8, 2), (7, 1)] 0 0 1 1 0 []"
proof -
  have "\<not> one_end all_ends"
    by (simp add: one_end_def all_ends_def) (rule exI [of _ 0], rule exI [of _ 1], simp)
  then show ?thesis
    by (simp add: two_ends_def all_ends_def unit_env_def Count_def gap_def narrow_def
        GetItemState_def Put_def PutItem_def subtract_def Differentiate_def droppable_def
        set_attrs_def Let_def)
qed

end
